theory Spec2Isabelle
  imports Main "HOL-Library.Word"
begin

section \<open>Build event protocol view: data model\<close>

text \<open>
  The embedding follows the build-event view of the extension (class
  \<open>BuildEventProtocolView\<close>, the item classes, \<open>BuildEventState\<close> and
  \<open>ProblemCollector\<close>). Optional fields of the decoded protocol messages are
  \<open>option\<close> values, \<open>None\<close> standing for JavaScript's \<open>undefined\<close>. Labels,
  descriptions and icons of the tree items are presentation only and are left out,
  except for the label of the item that ends a build.
\<close>

subsection \<open>Values of the \<open>long\<close> library\<close>

text \<open>
  A \<open>Long\<close> is a 64-bit two's complement integer. A 64-bit protocol field reaches the
  code as a \<open>Long\<close> object, the decoder's default representation of longs, or as a
  JavaScript number; \<open>Number\<close> carries integral numbers only. The decoder is not
  configured to deliver longs as strings, and strings are left out. Both timestamps
  are signed fields.
\<close>

type_synonym Long = "64 word"

datatype LongValue = Number int | LongObject Long

datatype error = TypeError | UriError | RangeError

text \<open>
  \<open>Long.fromNumber\<close>: saturates at the ends of the signed range, otherwise the number
  itself.
\<close>

definition Long_fromNumber :: "int \<Rightarrow> Long" where
  "Long_fromNumber v =
     (if v \<le> - (2 ^ 63) then word_of_int (- (2 ^ 63))
      else if v + 1 \<ge> 2 ^ 63 then word_of_int (2 ^ 63 - 1)
      else word_of_int v)"

text \<open>
  \<open>Long.fromValue\<close>: a number goes through \<open>fromNumber\<close>; any other value that
  is not a string is read through its fields \<open>low\<close> and \<open>high\<close>, and on
  \<open>undefined\<close> that field access raises a \<open>TypeError\<close>.
\<close>

definition Long_fromValue :: "LongValue option \<Rightarrow> error + Long" where
  "Long_fromValue val =
     (case val of
        None \<Rightarrow> Inl TypeError
      | Some (Number v) \<Rightarrow> Inr (Long_fromNumber v)
      | Some (LongObject l) \<Rightarrow> Inr l)"

definition Long_sub :: "Long \<Rightarrow> Long \<Rightarrow> Long" where
  "Long_sub a b = a - b"

definition digitChar :: "nat \<Rightarrow> char" where
  "digitChar d = ''0123456789'' ! d"

fun natToString :: "nat \<Rightarrow> string" where
  "natToString n =
     (if n < 10 then [digitChar n] else natToString (n div 10) @ [digitChar (n mod 10)])"

text \<open>\<open>Long.toString\<close> in radix 10, for a signed value.\<close>

definition Long_toString :: "Long \<Rightarrow> string" where
  "Long_toString l =
     (if sint l < 0 then CHR ''-'' # natToString (nat (- sint l)) else natToString (nat (sint l)))"

subsection \<open>Protocol messages\<close>

text \<open>
  \<open>contents\<close> of a \<open>File\<close> is a byte buffer; a buffer object is truthy even when
  empty, whereas the string \<open>uri\<close> is truthy only when non-empty.
\<close>

record File =
  name :: "string option"
  uri :: "string option"
  contents :: "string option"

definition truthy :: "string option \<Rightarrow> bool" where
  "truthy s = (case s of None \<Rightarrow> False | Some x \<Rightarrow> x \<noteq> [])"

text \<open>The field \<open>id\<close> of a file-set identifier; the name \<open>id\<close> is taken in HOL.\<close>

record NamedSetOfFilesId =
  id' :: "string option"

text \<open>
  A named set of files. The type \<open>'f\<close> is the type of \<open>File\<close> objects as a JavaScript
  \<open>Set\<close> sees them: two values of \<open>'f\<close> are equal exactly when they are the same
  object.
\<close>

record 'f NamedSetOfFiles =
  files :: "'f list option"
  fileSets :: "NamedSetOfFilesId list option"

record OutputGroup =
  groupName :: "string option"
  groupFileSets :: "NamedSetOfFilesId list option"

record FailureDetail =
  message :: "string option"
  category :: "string option"

record BuildStarted =
  uuid :: "string option"
  startTimeMillis :: "LongValue option"
  buildToolVersion :: "string option"
  command :: "string option"
  workspaceDirectory :: "string option"

record ExitCode =
  exitName :: "string option"
  code :: "int option"

record BuildFinished =
  overallSuccess :: "bool option"
  exitCode :: "ExitCode option"
  finishTimeMillis :: "LongValue option"

record WorkspaceConfig =
  localExecRoot :: "string option"

record ActionExecuted =
  success :: "bool option"
  stdout :: "File option"
  stderr :: "File option"
  type :: "string option"

record TargetConfigured =
  targetKind :: "string option"

record TargetComplete =
  completedSuccess :: "bool option"
  outputGroup :: "OutputGroup list option"
  failureDetail :: "FailureDetail option"

text \<open>A value of the enumeration \<open>TestStatus\<close> arrives as its number or as its name.\<close>

datatype TestStatus = StatusNumber int | StatusName string

record TestResult =
  status :: "TestStatus option"
  statusDetails :: "string option"

record BuildEventId =
  namedSet :: "NamedSetOfFilesId option"
  targetConfiguredLabel :: "string option"
  targetCompletedLabel :: "string option"

text \<open>
  The payload of an event is a \<open>oneof\<close>: the tag \<open>payload\<close> names the one field that is
  set. \<open>other\<close> stands for every payload kind the view does not handle, and for none.
\<close>

datatype 'f Payload =
    started BuildStarted
  | workspaceInfo WorkspaceConfig
  | action ActionExecuted
  | namedSetOfFiles "'f NamedSetOfFiles"
  | configured TargetConfigured
  | completed TargetComplete
  | finished BuildFinished
  | testResult TestResult
  | other

record 'f BazelBuildEvent =
  bes_id :: "BuildEventId option"
  bes_payload :: "'f Payload"
  sequenceNumber :: int

subsection \<open>Markers and tree items\<close>

record IMarker =
  resource :: "string option"
  startLineNumber :: int
  startColumn :: int
  markerMessage :: string

type_synonym FileProblems = "(string \<times> IMarker list) list option"

datatype 'f BazelBuildEventItem =
    BuildStartedItem "'f BazelBuildEvent"
  | BuildSuccessItem "'f BazelBuildEvent" "Long option" string
  | BuildFailedItem "'f BazelBuildEvent" "Long option" string
  | ActionFailedItem "'f BazelBuildEvent"
  | ActionSuccessItem "'f BazelBuildEvent"
  | TestResultFailedItem "'f BazelBuildEvent"
  | TargetCompleteItem "'f BazelBuildEvent" "'f BazelBuildEventItem list option"
  | FileItem "'f BazelBuildEvent" 'f
  | ProblemFileItem "'f BazelBuildEvent" string "IMarker list"
  | FileMarkerItem "'f BazelBuildEvent" string IMarker
  | FailureDetailItem "'f BazelBuildEvent" FailureDetail

text \<open>
  The getter \<open>attention\<close>: \<open>false\<close> in the base class, overridden by the start and
  finish items, failed actions, failed tests and completed targets.
\<close>

fun attention :: "'f BazelBuildEventItem \<Rightarrow> bool" where
  "attention (BuildStartedItem e) = True"
| "attention (BuildSuccessItem e d l) = True"
| "attention (BuildFailedItem e d l) = True"
| "attention (ActionFailedItem e) = True"
| "attention (ActionSuccessItem e) = False"
| "attention (TestResultFailedItem e) = True"
| "attention (TargetCompleteItem e outputs) =
     (case bes_payload e of
        completed c \<Rightarrow> completedSuccess c \<noteq> Some True
      | _ \<Rightarrow> True)"
| "attention (FileItem e f) = False"
| "attention (ProblemFileItem e u ms) = False"
| "attention (FileMarkerItem e u m) = False"
| "attention (FailureDetailItem e d) = False"

fun isActionSuccessItem :: "'f BazelBuildEventItem \<Rightarrow> bool" where
  "isActionSuccessItem (ActionSuccessItem e) = True"
| "isActionSuccessItem _ = False"

fun isBuildStartedItem :: "'f BazelBuildEventItem \<Rightarrow> bool" where
  "isBuildStartedItem (BuildStartedItem e) = True"
| "isBuildStartedItem _ = False"

subsection \<open>The item that ends a build\<close>

text \<open>
  The constructor of \<open>BuildFinishedItem\<close>. It converts the finish timestamp of the
  event and then the start timestamp of the \<open>started\<close> metadata it is given, which
  may be \<open>undefined\<close>. Both conversions stand before the \<open>try\<close> block, which
  holds the subtraction only; the elapsed time goes into the label when \<open>timeDelta\<close>
  is set. The result is the pair of \<open>timeDelta\<close> and the label. The constructors of
  the other items, \<open>FileItem\<close> apart, compute labels and icons behind optional
  chaining and raise nothing; the icon address that the constructor of
  \<open>TargetCompleteItem\<close> parses starts with a fixed scheme and host.
\<close>

definition exitCodeName :: "BuildFinished \<Rightarrow> string" where
  "exitCodeName f =
     (case exitCode f of
        None \<Rightarrow> ''undefined''
      | Some c \<Rightarrow> (case exitName c of None \<Rightarrow> ''undefined'' | Some n \<Rightarrow> n))"

definition BuildFinishedItem_new ::
  "BuildFinished \<Rightarrow> BuildStarted option \<Rightarrow> error + (Long option \<times> string)" where
  "BuildFinishedItem_new fin st =
     (case Long_fromValue (finishTimeMillis fin) of
        Inl err \<Rightarrow> Inl err
      | Inr end \<Rightarrow>
          (case Long_fromValue (case st of None \<Rightarrow> None | Some s \<Rightarrow> startTimeMillis s) of
             Inl err \<Rightarrow> Inl err
           | Inr start \<Rightarrow>
               (let timeDelta = Some (Long_sub end start);
                    elapsed = (case timeDelta of
                                 None \<Rightarrow> ''''
                               | Some d \<Rightarrow> ''('' @ Long_toString d @ ''ms)'')
                in Inr (timeDelta, exitCodeName fin @ '' '' @ elapsed))))"

definition BuildSuccessItem_new ::
  "'f BazelBuildEvent \<Rightarrow> BuildFinished \<Rightarrow> BuildStarted option \<Rightarrow> error + 'f BazelBuildEventItem" where
  "BuildSuccessItem_new e fin st =
     (case BuildFinishedItem_new fin st of
        Inl err \<Rightarrow> Inl err
      | Inr (d, l) \<Rightarrow> Inr (BuildSuccessItem e d l))"

definition BuildFailedItem_new ::
  "'f BazelBuildEvent \<Rightarrow> BuildFinished \<Rightarrow> BuildStarted option \<Rightarrow> error + 'f BazelBuildEventItem" where
  "BuildFailedItem_new e fin st =
     (case BuildFinishedItem_new fin st of
        Inl err \<Rightarrow> Inl err
      | Inr (d, l) \<Rightarrow> Inr (BuildFailedItem e d l))"

section \<open>The build event state tracker\<close>

text \<open>
  \<open>BuildEventState\<close>: two maps and the metadata of the running build. A key is the
  identifier read from the event, which may be \<open>undefined\<close>. The fields
  \<open>fileSets\<close>, \<open>workspaceInfo\<close> and \<open>started\<close> carry the prefix \<open>state\<close>
  here, their names being in use for a field of a file set and for two payloads.
\<close>

record 'f BuildEventState =
  stateFileSets :: "string option \<rightharpoonup> 'f NamedSetOfFiles"
  targetsConfigured :: "string option \<rightharpoonup> TargetConfigured"
  stateWorkspaceInfo :: "WorkspaceConfig option"
  stateStarted :: "BuildStarted option"

definition BuildEventState_new :: "'f BuildEventState" where
  "BuildEventState_new =
     \<lparr>stateFileSets = Map.empty, targetsConfigured = Map.empty,
      stateWorkspaceInfo = None, stateStarted = None\<rparr>"

definition namedSetKey :: "'f BazelBuildEvent \<Rightarrow> string option" where
  "namedSetKey e =
     (case bes_id e of
        None \<Rightarrow> None
      | Some i \<Rightarrow> (case namedSet i of None \<Rightarrow> None | Some n \<Rightarrow> id' n))"

definition namedSetOfFilesOf :: "'f BazelBuildEvent \<Rightarrow> 'f NamedSetOfFiles option" where
  "namedSetOfFilesOf e = (case bes_payload e of namedSetOfFiles fileSet \<Rightarrow> Some fileSet | _ \<Rightarrow> None)"

definition configuredOf :: "'f BazelBuildEvent \<Rightarrow> TargetConfigured option" where
  "configuredOf e = (case bes_payload e of configured conf \<Rightarrow> Some conf | _ \<Rightarrow> None)"

text \<open>
  Both maps are read with \<open>get\<close> only, so a key that holds \<open>undefined\<close> reads like a
  key that is absent.
\<close>

definition handleNamedSetOfFiles ::
  "'f BuildEventState \<Rightarrow> 'f BazelBuildEvent \<Rightarrow> 'f BuildEventState" where
  "handleNamedSetOfFiles st e =
     st\<lparr>stateFileSets := (stateFileSets st)(namedSetKey e := namedSetOfFilesOf e)\<rparr>"

definition handleTargetConfigured ::
  "'f BuildEventState \<Rightarrow> 'f BazelBuildEvent \<Rightarrow> 'f BuildEventState" where
  "handleTargetConfigured st e =
     st\<lparr>targetsConfigured :=
          (targetsConfigured st)
            ((case bes_id e of None \<Rightarrow> None | Some i \<Rightarrow> targetConfiguredLabel i) := configuredOf e)\<rparr>"

definition reset :: "'f BuildEventState \<Rightarrow> 'f BuildEventState" where
  "reset st = st\<lparr>stateFileSets := Map.empty, stateWorkspaceInfo := None, stateStarted := None\<rparr>"

definition getTargetKind :: "'f BuildEventState \<Rightarrow> 'f BazelBuildEvent \<Rightarrow> string option" where
  "getTargetKind st e =
     (case targetsConfigured st
             (case bes_id e of None \<Rightarrow> None | Some i \<Rightarrow> targetCompletedLabel i) of
        None \<Rightarrow> None
      | Some conf \<Rightarrow> targetKind conf)"

text \<open>
  \<open>Set.add\<close> of JavaScript: a set keeps its elements in insertion order and adding an
  element it already holds changes nothing.
\<close>

definition Set_add :: "'a \<Rightarrow> 'a list \<Rightarrow> 'a list" where
  "Set_add x s = (if x \<in> set s then s else s @ [x])"

text \<open>
  The three resolver methods call one another. They are one function here, over the
  call that is made; the three methods are its instances below. The set of files is
  changed in place by the methods and is returned here. The recursion has no bound
  and no record of the identifiers it has seen. \<open>collectFiles\<close> is the recursion on
  a call stack that never runs out, so the result is an \<open>option\<close>: \<open>None\<close> when
  the recursion does not come to an end. \<open>collectFilesStack\<close> below is the same
  recursion on a call stack of a given depth, and the two agree wherever that stack
  is deep enough (\<open>stack_sound\<close>, \<open>stack_complete\<close>, \<open>no_result_iff_exhausted\<close>).
\<close>

datatype 'f collectCall =
    FromFileSet "'f NamedSetOfFiles option"
  | FromFileSetId "NamedSetOfFilesId option"
  | FromFileSetIds "NamedSetOfFilesId list option"

partial_function (option) collectFiles ::
  "'f BuildEventState \<Rightarrow> 'f collectCall \<Rightarrow> 'f list \<Rightarrow> 'f list option" where
  "collectFiles st c fs =
     (case c of
        FromFileSet fso \<Rightarrow>
          (case fso of
             None \<Rightarrow> Some fs
           | Some fileSet \<Rightarrow>
               collectFiles st (FromFileSetIds (fileSets fileSet))
                 (fold Set_add (case files fileSet of None \<Rightarrow> [] | Some xs \<Rightarrow> xs) fs))
      | FromFileSetId ido \<Rightarrow>
          (case ido of
             None \<Rightarrow> Some fs
           | Some i \<Rightarrow> collectFiles st (FromFileSet (stateFileSets st (id' i))) fs)
      | FromFileSetIds idso \<Rightarrow>
          (case idso of
             None \<Rightarrow> Some fs
           | Some ids \<Rightarrow>
               (case ids of
                  [] \<Rightarrow> Some fs
                | i # rest \<Rightarrow>
                    Option.bind (collectFiles st (FromFileSetId (Some i)) fs)
                      (\<lambda>fs'. collectFiles st (FromFileSetIds (Some rest)) fs'))))"

definition collectFilesFromFileSet ::
  "'f BuildEventState \<Rightarrow> 'f NamedSetOfFiles option \<Rightarrow> 'f list \<Rightarrow> 'f list option" where
  "collectFilesFromFileSet st fileSet fs = collectFiles st (FromFileSet fileSet) fs"

definition collectFilesFromFileSetId ::
  "'f BuildEventState \<Rightarrow> NamedSetOfFilesId option \<Rightarrow> 'f list \<Rightarrow> 'f list option" where
  "collectFilesFromFileSetId st i fs = collectFiles st (FromFileSetId i) fs"

definition collectFilesFromFileSetIds ::
  "'f BuildEventState \<Rightarrow> NamedSetOfFilesId list option \<Rightarrow> 'f list \<Rightarrow> 'f list option" where
  "collectFilesFromFileSetIds st ids fs = collectFiles st (FromFileSetIds ids) fs"

text \<open>
  The same three methods on a call stack that holds \<open>n\<close> more frames. A call takes
  one frame, and a call for which no frame is left raises the \<open>RangeError\<close> of an
  exhausted call stack, which none of the methods catches. The loop over the
  identifiers runs in the frame of \<open>collectFilesFromFileSetIds\<close>. Only the frames
  of the three methods are counted. \<open>pendingIds\<close>, the identifiers the loop has
  still to visit, serves the termination proof.
\<close>

fun pendingIds :: "'f collectCall \<Rightarrow> nat" where
  "pendingIds (FromFileSetIds (Some ids)) = length ids"
| "pendingIds _ = 0"

function collectFilesStack ::
  "nat \<Rightarrow> 'f BuildEventState \<Rightarrow> 'f collectCall \<Rightarrow> 'f list \<Rightarrow> error + 'f list" where
  "collectFilesStack 0 st c fs = Inl RangeError"
| "collectFilesStack (Suc n) st (FromFileSet None) fs = Inr fs"
| "collectFilesStack (Suc n) st (FromFileSet (Some fileSet)) fs =
     collectFilesStack n st (FromFileSetIds (fileSets fileSet))
       (fold Set_add (case files fileSet of None \<Rightarrow> [] | Some xs \<Rightarrow> xs) fs)"
| "collectFilesStack (Suc n) st (FromFileSetId None) fs = Inr fs"
| "collectFilesStack (Suc n) st (FromFileSetId (Some i)) fs =
     collectFilesStack n st (FromFileSet (stateFileSets st (id' i))) fs"
| "collectFilesStack (Suc n) st (FromFileSetIds None) fs = Inr fs"
| "collectFilesStack (Suc n) st (FromFileSetIds (Some [])) fs = Inr fs"
| "collectFilesStack (Suc n) st (FromFileSetIds (Some (i # rest))) fs =
     (case collectFilesStack n st (FromFileSetId (Some i)) fs of
        Inl err \<Rightarrow> Inl err
      | Inr fs' \<Rightarrow> collectFilesStack (Suc n) st (FromFileSetIds (Some rest)) fs')"
  by pat_completeness auto
termination
  by (relation "measures [\<lambda>(n, st, c, fs). n, \<lambda>(n, st, c, fs). pendingIds c]") auto

definition collectFilesFromFileSetIds_stack ::
  "nat \<Rightarrow> 'f BuildEventState \<Rightarrow> NamedSetOfFilesId list option \<Rightarrow> 'f list \<Rightarrow> error + 'f list" where
  "collectFilesFromFileSetIds_stack n st ids fs = collectFilesStack n st (FromFileSetIds ids) fs"

text \<open>
  The references among the stored sets: \<open>(k, k')\<close> when the set stored under \<open>k\<close>
  lists the identifier \<open>k'\<close> among its nested sets. A cycle is reachable from a list
  of identifiers when some chain of references from one of them leads to an identifier
  that refers back to itself, in one step or in several. \<open>chainsEnd st k\<close>: every
  chain of references from \<open>k\<close> ends.
\<close>

definition refs :: "'f BuildEventState \<Rightarrow> (string option \<times> string option) set" where
  "refs st =
     {(k, k'). \<exists>fileSet ids. stateFileSets st k = Some fileSet \<and> fileSets fileSet = Some ids \<and>
                 k' \<in> id' ` set ids}"

definition cycleReachable :: "'f BuildEventState \<Rightarrow> NamedSetOfFilesId list option \<Rightarrow> bool" where
  "cycleReachable st ids \<longleftrightarrow>
     (\<exists>i k. i \<in> set (case ids of None \<Rightarrow> [] | Some l \<Rightarrow> l) \<and>
            (id' i, k) \<in> (refs st)\<^sup>* \<and> (k, k) \<in> (refs st)\<^sup>+)"

inductive chainsEnd :: "'f BuildEventState \<Rightarrow> string option \<Rightarrow> bool" for st where
  "(\<And>k'. (k, k') \<in> refs st \<Longrightarrow> chainsEnd st k') \<Longrightarrow> chainsEnd st k"

text \<open>
  The constructor of \<open>FileItem\<close>. The fields of a \<open>File\<close> object are read through
  \<open>fileOf\<close>. The constructor first takes the base name of the file's \<open>name\<close>, and
  \<open>path.basename\<close> raises a \<open>TypeError\<close> on \<open>undefined\<close>; then, when the
  \<open>uri\<close> is a non-empty string, it parses it with the editor's \<open>Uri.parse\<close>, which
  raises an error on a string it does not accept (a scheme with an illegal character,
  for one). \<open>Uri.parse\<close> belongs to the editor and is the parameter \<open>parseUri\<close>.
\<close>

definition FileItem_new ::
  "('f \<Rightarrow> File) \<Rightarrow> (string \<Rightarrow> error + 'u) \<Rightarrow> 'f BazelBuildEvent \<Rightarrow> 'f \<Rightarrow>
     error + 'f BazelBuildEventItem" where
  "FileItem_new fileOf parseUri e f =
     (case name (fileOf f) of
        None \<Rightarrow> Inl TypeError
      | Some n \<Rightarrow>
          (if truthy (uri (fileOf f))
           then (case parseUri (the (uri (fileOf f))) of
                   Inl err \<Rightarrow> Inl err
                 | Inr u \<Rightarrow> Inr (FileItem e f))
           else Inr (FileItem e f)))"


text \<open>
  \<open>TargetCompleteItem.getChildren\<close>. The item keeps a reference to the state tracker
  of the view and reads it when the children are asked for, so the state is an
  argument. The loop over the output groups is \<open>collectOutputGroups\<close>, the
  \<open>forEach\<close> that builds the items is \<open>pushFileItems\<close>; an exception in a
  constructor ends it and leaves in \<open>outputs\<close> the items pushed before. The result
  is the children or the exception raised, and the field \<open>outputs\<close> after the call;
  it is \<open>None\<close> when the resolver does not come to an end.
\<close>

fun collectOutputGroups ::
  "'f BuildEventState \<Rightarrow> OutputGroup list \<Rightarrow> 'f list \<Rightarrow> 'f list option" where
  "collectOutputGroups st [] fs = Some fs"
| "collectOutputGroups st (g # gs) fs =
     Option.bind (collectFilesFromFileSetIds st (groupFileSets g) fs) (collectOutputGroups st gs)"

fun pushFileItems ::
  "('f \<Rightarrow> File) \<Rightarrow> (string \<Rightarrow> error + 'u) \<Rightarrow> 'f BazelBuildEvent \<Rightarrow> 'f list \<Rightarrow>
     'f BazelBuildEventItem list \<Rightarrow> error option \<times> 'f BazelBuildEventItem list" where
  "pushFileItems fileOf parseUri e [] outputs = (None, outputs)"
| "pushFileItems fileOf parseUri e (f # fs) outputs =
     (case FileItem_new fileOf parseUri e f of
        Inl err \<Rightarrow> (Some err, outputs)
      | Inr item \<Rightarrow> pushFileItems fileOf parseUri e fs (outputs @ [item]))"

definition completedOf :: "'f BazelBuildEvent \<Rightarrow> TargetComplete option" where
  "completedOf e = (case bes_payload e of completed c \<Rightarrow> Some c | _ \<Rightarrow> None)"

definition outputGroupsOf :: "'f BazelBuildEvent \<Rightarrow> OutputGroup list" where
  "outputGroupsOf e =
     (case (case completedOf e of None \<Rightarrow> None | Some c \<Rightarrow> outputGroup c) of
        None \<Rightarrow> []
      | Some gs \<Rightarrow> gs)"

definition TargetCompleteItem_getChildren ::
  "('f \<Rightarrow> File) \<Rightarrow> (string \<Rightarrow> error + 'u) \<Rightarrow> 'f BuildEventState \<Rightarrow> 'f BazelBuildEvent \<Rightarrow>
     'f BazelBuildEventItem list option \<Rightarrow>
     ((error + 'f BazelBuildEventItem list) \<times> 'f BazelBuildEventItem list option) option" where
  "TargetCompleteItem_getChildren fileOf parseUri st e outputs =
     (case (case completedOf e of None \<Rightarrow> None | Some c \<Rightarrow> failureDetail c) of
        Some detail \<Rightarrow> Some (Inr [FailureDetailItem e detail], outputs)
      | None \<Rightarrow>
          (case outputs of
             Some os \<Rightarrow> Some (Inr os, Some os)
           | None \<Rightarrow>
               Option.bind (collectOutputGroups st (outputGroupsOf e) [])
                 (\<lambda>fs. case pushFileItems fileOf parseUri e fs [] of
                          (None, os) \<Rightarrow> Some (Inr os, Some os)
                        | (Some err, os) \<Rightarrow> Some (Inl err, Some os))))"

section \<open>The problem collector\<close>

text \<open>
  The registry of problem matchers, the reading of a file from its \<open>uri\<close> and the
  run of a matcher over the lines of the data (\<open>parseProblems\<close>, which drives the
  line decoder, the problem collector and the marker service of other modules) are
  the parameters \<open>registry\<close>, \<open>readFile\<close> and \<open>parseProblems\<close>. A matcher has the
  type \<open>'m\<close>. Reading can fail. The diagnostics that \<open>fileUriProblems\<close> hands to
  the editor are left out.
\<close>

datatype TreeItemCollapsibleState = CollapsibleNone | Collapsed | Expanded

definition fileContentProblems :: "string option \<Rightarrow> 'm \<Rightarrow> string \<Rightarrow> error + FileProblems" where
  "fileContentProblems ty matcher cs = Inr None"

definition fileUriProblems ::
  "(string \<Rightarrow> error + string) \<Rightarrow> ('m \<Rightarrow> string \<Rightarrow> (string \<times> IMarker list) list) \<Rightarrow>
     string option \<Rightarrow> 'm \<Rightarrow> string \<Rightarrow> error + FileProblems" where
  "fileUriProblems readFile parseProblems ty matcher u =
     (case readFile u of
        Inl err \<Rightarrow> Inl err
      | Inr data \<Rightarrow> Inr (Some (parseProblems matcher data)))"

definition fileProblems ::
  "(string option \<Rightarrow> 'm option) \<Rightarrow> (string \<Rightarrow> error + string) \<Rightarrow>
     ('m \<Rightarrow> string \<Rightarrow> (string \<times> IMarker list) list) \<Rightarrow>
     string option \<Rightarrow> File \<Rightarrow> error + FileProblems" where
  "fileProblems registry readFile parseProblems ty file =
     (case registry ty of
        None \<Rightarrow> Inr None
      | Some matcher \<Rightarrow>
          (case contents file of
             Some cs \<Rightarrow> fileContentProblems ty matcher cs
           | None \<Rightarrow>
               (if truthy (uri file)
                then fileUriProblems readFile parseProblems ty matcher (the (uri file))
                else Inr None)))"

definition actionProblems ::
  "(string option \<Rightarrow> 'm option) \<Rightarrow> (string \<Rightarrow> error + string) \<Rightarrow>
     ('m \<Rightarrow> string \<Rightarrow> (string \<times> IMarker list) list) \<Rightarrow>
     ActionExecuted \<Rightarrow> error + FileProblems" where
  "actionProblems registry readFile parseProblems a =
     (if success a = Some True then Inr None
      else case stderr a of
             Some f \<Rightarrow> fileProblems registry readFile parseProblems (type a) f
           | None \<Rightarrow>
               (case stdout a of
                  Some f \<Rightarrow> fileProblems registry readFile parseProblems (type a) f
                | None \<Rightarrow> Inr None))"

text \<open>
  \<open>ActionFailedItem.getChildren\<close>: the children, and the collapsible state of the
  item after the call (\<open>Expanded\<close> since the constructor). The method reads the
  \<open>action\<close> payload of its event without a check.
\<close>

definition ActionFailedItem_getChildren ::
  "(string option \<Rightarrow> 'm option) \<Rightarrow> (string \<Rightarrow> error + string) \<Rightarrow>
     ('m \<Rightarrow> string \<Rightarrow> (string \<times> IMarker list) list) \<Rightarrow>
     'f BazelBuildEvent \<Rightarrow>
     error + ('f BazelBuildEventItem list option \<times> TreeItemCollapsibleState)" where
  "ActionFailedItem_getChildren registry readFile parseProblems e =
     (case bes_payload e of
        action a \<Rightarrow>
          (case actionProblems registry readFile parseProblems a of
             Inl err \<Rightarrow> Inl err
           | Inr None \<Rightarrow> Inr (None, CollapsibleNone)
           | Inr (Some problems) \<Rightarrow>
               Inr (Some (map (\<lambda>(u, markers). ProblemFileItem e u markers) problems), Expanded))
      | _ \<Rightarrow> Inl TypeError)"

section \<open>The view: dispatch of the events\<close>

text \<open>
  The view: its list of items, the passed tests, the state tracker, and of the
  problem collector the \<open>started\<close> metadata it keeps. \<open>refresh\<close>, which
  \<open>addItem\<close> and \<open>replaceLastItem\<close> call, only notifies the tree and is left out.
\<close>

record ProblemCollector =
  collectorStarted :: "BuildStarted option"

record 'f BuildEventProtocolView =
  items :: "'f BazelBuildEventItem list"
  testsPassed :: "TestResult list"
  state :: "'f BuildEventState"
  problemCollector :: ProblemCollector

definition BuildEventProtocolView_new :: "'f BuildEventProtocolView" where
  "BuildEventProtocolView_new =
     \<lparr>items = [], testsPassed = [], state = BuildEventState_new,
      problemCollector = \<lparr>collectorStarted = None\<rparr>\<rparr>"

definition clear :: "'f BuildEventProtocolView \<Rightarrow> 'f BuildEventProtocolView" where
  "clear v =
     v\<lparr>items := [], testsPassed := [], state := reset (state v),
       problemCollector := (problemCollector v)\<lparr>collectorStarted := None\<rparr>\<rparr>"

definition addItem ::
  "'f BuildEventProtocolView \<Rightarrow> 'f BazelBuildEventItem \<Rightarrow> 'f BuildEventProtocolView" where
  "addItem v item = v\<lparr>items := items v @ [item]\<rparr>"

text \<open>
  \<open>replaceLastItem\<close> writes at index \<open>length - 1\<close>. On an empty array that index is
  \<open>-1\<close>, which is no element of the array: the list of items stays empty.
\<close>

definition replaceLastItem ::
  "'f BuildEventProtocolView \<Rightarrow> 'f BazelBuildEventItem \<Rightarrow> 'f BuildEventProtocolView" where
  "replaceLastItem v item =
     (if items v = [] then v else v\<lparr>items := (items v)[length (items v) - 1 := item]\<rparr>)"

definition handleStartedEvent ::
  "'f BuildEventProtocolView \<Rightarrow> 'f BazelBuildEvent \<Rightarrow> BuildStarted \<Rightarrow> 'f BuildEventProtocolView" where
  "handleStartedEvent v e s =
     (let v1 = clear v;
          v2 = v1\<lparr>state := (state v1)\<lparr>stateStarted := Some s\<rparr>\<rparr>;
          v3 = v2\<lparr>problemCollector := (problemCollector v2)\<lparr>collectorStarted := Some s\<rparr>\<rparr>
      in addItem v3 (BuildStartedItem e))"

definition handleWorkspaceInfoEvent ::
  "'f BuildEventProtocolView \<Rightarrow> 'f BazelBuildEvent \<Rightarrow> WorkspaceConfig \<Rightarrow> 'f BuildEventProtocolView" where
  "handleWorkspaceInfoEvent v e w = v\<lparr>state := (state v)\<lparr>stateWorkspaceInfo := Some w\<rparr>\<rparr>"

definition handleCompletedEvent ::
  "'f BuildEventProtocolView \<Rightarrow> 'f BazelBuildEvent \<Rightarrow> TargetComplete \<Rightarrow> 'f BuildEventProtocolView" where
  "handleCompletedEvent v e c = addItem v (TargetCompleteItem e None)"

text \<open>
  \<open>handleFinishedEvent\<close> filters the list first and builds the last item afterwards.
  The result is the exception raised, if any, and the view as the handler leaves it.
\<close>

definition handleFinishedEvent ::
  "'f BuildEventProtocolView \<Rightarrow> 'f BazelBuildEvent \<Rightarrow> BuildFinished \<Rightarrow>
     error option \<times> 'f BuildEventProtocolView" where
  "handleFinishedEvent v e fin =
     (let v1 = v\<lparr>items := filter attention (items v)\<rparr>
      in if overallSuccess fin = Some True
         then (case BuildSuccessItem_new e fin (stateStarted (state v1)) of
                 Inl err \<Rightarrow> (Some err, v1)
               | Inr item \<Rightarrow> (None, addItem v1 item))
         else (case BuildFailedItem_new e fin (stateStarted (state v1)) of
                 Inl err \<Rightarrow> (Some err, v1)
               | Inr item \<Rightarrow> (None, addItem v1 item)))"

definition handleNamedSetOfFilesEvent ::
  "'f BuildEventProtocolView \<Rightarrow> 'f BazelBuildEvent \<Rightarrow> 'f BuildEventProtocolView" where
  "handleNamedSetOfFilesEvent v e = v\<lparr>state := handleNamedSetOfFiles (state v) e\<rparr>"

definition handleTargetConfiguredEvent ::
  "'f BuildEventProtocolView \<Rightarrow> 'f BazelBuildEvent \<Rightarrow> 'f BuildEventProtocolView" where
  "handleTargetConfiguredEvent v e = v\<lparr>state := handleTargetConfigured (state v) e\<rparr>"

definition lastIsActionSuccessItem :: "'f BazelBuildEventItem list \<Rightarrow> bool" where
  "lastIsActionSuccessItem xs = (case xs of [] \<Rightarrow> False | _ \<Rightarrow> isActionSuccessItem (last xs))"

definition handleActionExecutedEventSuccess ::
  "'f BuildEventProtocolView \<Rightarrow> 'f BazelBuildEvent \<Rightarrow> ActionExecuted \<Rightarrow> 'f BuildEventProtocolView" where
  "handleActionExecutedEventSuccess v e a =
     (let item = ActionSuccessItem e
      in if lastIsActionSuccessItem (items v) then replaceLastItem v item else addItem v item)"

definition handleActionExecutedEvent ::
  "'f BuildEventProtocolView \<Rightarrow> 'f BazelBuildEvent \<Rightarrow> ActionExecuted \<Rightarrow> 'f BuildEventProtocolView" where
  "handleActionExecutedEvent v e a =
     (if success a = Some True then handleActionExecutedEventSuccess v e a
      else addItem v (ActionFailedItem e))"

definition handleTestResultEvent ::
  "'f BuildEventProtocolView \<Rightarrow> 'f BazelBuildEvent \<Rightarrow> TestResult \<Rightarrow> 'f BuildEventProtocolView" where
  "handleTestResultEvent v e t =
     (if status t = Some (StatusName ''PASSED'') then v\<lparr>testsPassed := testsPassed v @ [t]\<rparr>
      else addItem v (TestResultFailedItem e))"

definition handleBazelBuildEvent ::
  "'f BuildEventProtocolView \<Rightarrow> 'f BazelBuildEvent \<Rightarrow> error option \<times> 'f BuildEventProtocolView" where
  "handleBazelBuildEvent v e =
     (case bes_payload e of
        started s \<Rightarrow> (None, handleStartedEvent v e s)
      | workspaceInfo w \<Rightarrow> (None, handleWorkspaceInfoEvent v e w)
      | action a \<Rightarrow> (None, handleActionExecutedEvent v e a)
      | namedSetOfFiles fileSet \<Rightarrow> (None, handleNamedSetOfFilesEvent v e)
      | configured conf \<Rightarrow> (None, handleTargetConfiguredEvent v e)
      | completed c \<Rightarrow> (None, handleCompletedEvent v e c)
      | finished fin \<Rightarrow> handleFinishedEvent v e fin
      | testResult t \<Rightarrow> (None, handleTestResultEvent v e t)
      | other \<Rightarrow> (None, v))"

text \<open>
  The emitter calls the handler once for each event, in order; an exception in one
  call rejects that call's promise and the next event is handled on the view as it is.
\<close>

fun handleBazelBuildEvents ::
  "'f BuildEventProtocolView \<Rightarrow> 'f BazelBuildEvent list \<Rightarrow> 'f BuildEventProtocolView" where
  "handleBazelBuildEvents v [] = v"
| "handleBazelBuildEvents v (e # es) = handleBazelBuildEvents (snd (handleBazelBuildEvent v e)) es"

text \<open>Two neighbours in the list that are both \<open>ActionSuccessItem\<close>s.\<close>

fun consecutiveActionSuccess :: "'f BazelBuildEventItem list \<Rightarrow> bool" where
  "consecutiveActionSuccess (x # y # xs) =
     ((isActionSuccessItem x \<and> isActionSuccessItem y) \<or> consecutiveActionSuccess (y # xs))"
| "consecutiveActionSuccess _ = False"

definition isSuccessAction :: "'f BazelBuildEvent \<Rightarrow> bool" where
  "isSuccessAction e = (case bes_payload e of action a \<Rightarrow> success a = Some True | _ \<Rightarrow> False)"

definition isStartedEvent :: "'f BazelBuildEvent \<Rightarrow> bool" where
  "isStartedEvent e = (case bes_payload e of started s \<Rightarrow> True | _ \<Rightarrow> False)"

section \<open>Example inputs\<close>

text \<open>A state in which the set \<open>A\<close> references itself, and the calls that stay on that cycle.\<close>

definition cyclicState :: "nat BuildEventState" where
  "cyclicState = BuildEventState_new
     \<lparr>stateFileSets := [Some ''A'' \<mapsto> \<lparr>files = Some [], fileSets = Some [\<lparr>id' = Some ''A''\<rparr>]\<rparr>]\<rparr>"

definition onCycle :: "nat BuildEventState \<Rightarrow> nat collectCall \<Rightarrow> bool" where
  "onCycle st c \<longleftrightarrow> st = cyclicState \<and>
      (c = FromFileSet (Some \<lparr>files = Some [], fileSets = Some [\<lparr>id' = Some ''A''\<rparr>]\<rparr>)
       \<or> c = FromFileSetId (Some \<lparr>id' = Some ''A''\<rparr>)
       \<or> (\<exists>rest. c = FromFileSetIds (Some (\<lparr>id' = Some ''A''\<rparr> # rest))))"

text \<open>A state in which the set \<open>A\<close> references the set \<open>B\<close>.\<close>

definition nestedState :: "nat BuildEventState" where
  "nestedState = BuildEventState_new
     \<lparr>stateFileSets :=
        [Some ''A'' \<mapsto> \<lparr>files = Some [1], fileSets = Some [\<lparr>id' = Some ''B''\<rparr>]\<rparr>,
         Some ''B'' \<mapsto> \<lparr>files = Some [2], fileSets = None\<rparr>]\<rparr>"

text \<open>
  A state that stores a cycle, the set \<open>A\<close> referencing itself, beside the set
  \<open>C\<close>, which nests no set.
\<close>

definition mixedState :: "nat BuildEventState" where
  "mixedState = BuildEventState_new
     \<lparr>stateFileSets :=
        [Some ''A'' \<mapsto> \<lparr>files = Some [4], fileSets = Some [\<lparr>id' = Some ''A''\<rparr>]\<rparr>,
         Some ''C'' \<mapsto> \<lparr>files = Some [5, 6], fileSets = None\<rparr>]\<rparr>"

text \<open>A state in which the sets \<open>A\<close> and \<open>B\<close> reference each other.\<close>

definition twoCycleState :: "nat BuildEventState" where
  "twoCycleState = BuildEventState_new
     \<lparr>stateFileSets :=
        [Some ''A'' \<mapsto> \<lparr>files = Some [1], fileSets = Some [\<lparr>id' = Some ''B''\<rparr>]\<rparr>,
         Some ''B'' \<mapsto> \<lparr>files = Some [2], fileSets = Some [\<lparr>id' = Some ''A''\<rparr>]\<rparr>]\<rparr>"

text \<open>Events of a small build; files are numbered objects.\<close>

definition startedEvent :: "LongValue option \<Rightarrow> nat BazelBuildEvent" where
  "startedEvent t =
     \<lparr>bes_id = None,
      bes_payload = started
        \<lparr>uuid = Some ''u1'', startTimeMillis = t, buildToolVersion = Some ''3.7.0'',
         command = Some ''build'', workspaceDirectory = Some ''/ws''\<rparr>,
      sequenceNumber = 1\<rparr>"

definition finishedPayload :: BuildFinished where
  "finishedPayload =
     \<lparr>overallSuccess = Some True,
      exitCode = Some \<lparr>exitName = Some ''SUCCESS'', code = Some 0\<rparr>,
      finishTimeMillis = Some (Number 2500)\<rparr>"

definition finishedEvent :: "nat BazelBuildEvent" where
  "finishedEvent = \<lparr>bes_id = None, bes_payload = finished finishedPayload, sequenceNumber = 9\<rparr>"

definition actionEvent :: "int \<Rightarrow> bool \<Rightarrow> nat BazelBuildEvent" where
  "actionEvent n ok =
     \<lparr>bes_id = None,
      bes_payload = action \<lparr>success = Some ok, stdout = None, stderr = None, type = Some ''Javac''\<rparr>,
      sequenceNumber = n\<rparr>"

definition failedActionEvent :: "nat BazelBuildEvent" where
  "failedActionEvent =
     \<lparr>bes_id = None,
      bes_payload = action
        \<lparr>success = Some False, stdout = None,
         stderr = Some \<lparr>name = Some ''stderr'', uri = None,
                        contents = Some ''foo/bar.cc:10:5: error: missing semicolon''\<rparr>,
         type = Some ''CppCompile''\<rparr>,
      sequenceNumber = 5\<rparr>"

definition namedSetEvent :: "string \<Rightarrow> nat list \<Rightarrow> nat BazelBuildEvent" where
  "namedSetEvent k fs =
     \<lparr>bes_id = Some \<lparr>namedSet = Some \<lparr>id' = Some k\<rparr>, targetConfiguredLabel = None,
                     targetCompletedLabel = None\<rparr>,
      bes_payload = namedSetOfFiles \<lparr>files = Some fs, fileSets = None\<rparr>,
      sequenceNumber = 3\<rparr>"

definition completedPayload :: "string \<Rightarrow> TargetComplete" where
  "completedPayload k =
     \<lparr>completedSuccess = Some True,
      outputGroup = Some [\<lparr>groupName = Some ''default'', groupFileSets = Some [\<lparr>id' = Some k\<rparr>]\<rparr>],
      failureDetail = None\<rparr>"

definition completedEvent :: "string \<Rightarrow> nat BazelBuildEvent" where
  "completedEvent k =
     \<lparr>bes_id = Some \<lparr>namedSet = None, targetConfiguredLabel = None,
                     targetCompletedLabel = Some ''//a:b''\<rparr>,
      bes_payload = completed (completedPayload k),
      sequenceNumber = 4\<rparr>"

definition configuredEvent :: "nat BazelBuildEvent" where
  "configuredEvent =
     \<lparr>bes_id = Some \<lparr>namedSet = None, targetConfiguredLabel = Some ''//a:b'',
                     targetCompletedLabel = None\<rparr>,
      bes_payload = configured \<lparr>targetKind = Some ''cc_library rule''\<rparr>,
      sequenceNumber = 2\<rparr>"

text \<open>
  The fields of the numbered files: the file \<open>3\<close> has a \<open>uri\<close> with a space in
  its scheme. \<open>exampleParseUri\<close> stands for \<open>Uri.parse\<close> on these files: it
  refuses a scheme that holds a space.
\<close>

definition exampleFileOf :: "nat \<Rightarrow> File" where
  "exampleFileOf n =
     (if n = 1 then \<lparr>name = Some ''bazel-out/bin/a/liba.a'',
                     uri = Some ''file:///ws/bazel-out/bin/a/liba.a'', contents = None\<rparr>
      else if n = 3 then \<lparr>name = Some ''bazel-out/bin/a/odd'',
                          uri = Some ''a b://c'', contents = None\<rparr>
      else \<lparr>name = Some ''bazel-out/bin/a/liba.so'',
            uri = Some ''file:///ws/bazel-out/bin/a/liba.so'', contents = None\<rparr>)"

definition exampleParseUri :: "string \<Rightarrow> error + string" where
  "exampleParseUri u =
     (if CHR '' '' \<in> set (takeWhile (\<lambda>c. c \<noteq> CHR '':'') u) then Inl UriError else Inr u)"

section \<open>Properties of the state tracker\<close>

subsection \<open>The three resolver methods\<close>

lemma collectFilesFromFileSet_simps:
  "collectFilesFromFileSet st None fs = Some fs"
  "collectFilesFromFileSet st (Some fileSet) fs =
     collectFilesFromFileSetIds st (fileSets fileSet)
       (fold Set_add (case files fileSet of None \<Rightarrow> [] | Some xs \<Rightarrow> xs) fs)"
  unfolding collectFilesFromFileSet_def collectFilesFromFileSetIds_def
  by (subst collectFiles.simps, simp)+

lemma collectFilesFromFileSetId_simps:
  "collectFilesFromFileSetId st None fs = Some fs"
  "collectFilesFromFileSetId st (Some i) fs =
     collectFilesFromFileSet st (stateFileSets st (id' i)) fs"
  unfolding collectFilesFromFileSet_def collectFilesFromFileSetId_def
  by (subst collectFiles.simps, simp)+

lemma collectFilesFromFileSetIds_simps:
  "collectFilesFromFileSetIds st None fs = Some fs"
  "collectFilesFromFileSetIds st (Some []) fs = Some fs"
  "collectFilesFromFileSetIds st (Some (i # rest)) fs =
     Option.bind (collectFilesFromFileSetId st (Some i) fs)
       (\<lambda>fs'. collectFilesFromFileSetIds st (Some rest) fs')"
  unfolding collectFilesFromFileSetId_def collectFilesFromFileSetIds_def
  by (subst collectFiles.simps, simp)+

lemmas collect_simps =
  collectFilesFromFileSet_simps collectFilesFromFileSetId_simps collectFilesFromFileSetIds_simps

lemma unresolved_id_skipped:
  "stateFileSets st (id' i) = None \<Longrightarrow>
   collectFilesFromFileSetIds st (Some (i # rest)) fs = collectFilesFromFileSetIds st (Some rest) fs"
  by (simp add: collect_simps)

lemma unresolved_ids:
  "\<forall>i \<in> set ids. stateFileSets st (id' i) = None \<Longrightarrow>
   collectFilesFromFileSetIds st (Some ids) fs = Some fs"
  by (induction ids) (simp_all add: collect_simps)

lemma unresolved_groups:
  "\<forall>g \<in> set gs. \<forall>ids. groupFileSets g = Some ids \<longrightarrow>
      (\<forall>i \<in> set ids. stateFileSets st (id' i) = None) \<Longrightarrow>
   collectOutputGroups st gs fs = Some fs"
proof (induction gs)
  case Nil
  then show ?case by simp
next
  case (Cons g gs)
  have "collectFilesFromFileSetIds st (groupFileSets g) fs = Some fs"
  proof (cases "groupFileSets g")
    case None
    then show ?thesis by (simp add: collect_simps)
  next
    case (Some ids)
    with Cons.prems show ?thesis by (simp add: unresolved_ids)
  qed
  with Cons show ?case by simp
qed

subsection \<open>The resolver on a call stack of limited depth\<close>

text \<open>
  A deeper stack changes nothing once the resolver returns; the only exception the
  resolver raises is that of the exhausted stack; and the resolver on a limited stack
  agrees with the resolver on a stack that never runs out.
\<close>

lemma stack_mono:
  "collectFilesStack n st c fs = Inr r \<Longrightarrow> n \<le> m \<Longrightarrow> collectFilesStack m st c fs = Inr r"
proof (induction n st c fs arbitrary: m r rule: collectFilesStack.induct)
  case (1 st c fs)
  then show ?case by simp
next
  case (2 n st fs)
  from "2.prems" show ?case by (cases m) simp_all
next
  case (3 n st fileSet fs)
  from "3.prems"(2) obtain m' where m: "m = Suc m'" and le: "n \<le> m'"
    by (cases m) simp_all
  from "3.prems"(1) have "collectFilesStack n st (FromFileSetIds (fileSets fileSet))
      (fold Set_add (case files fileSet of None \<Rightarrow> [] | Some xs \<Rightarrow> xs) fs) = Inr r"
    by simp
  from "3.IH" [OF this le] show ?case unfolding m by simp
next
  case (4 n st fs)
  from "4.prems" show ?case by (cases m) simp_all
next
  case (5 n st i fs)
  from "5.prems"(2) obtain m' where m: "m = Suc m'" and le: "n \<le> m'"
    by (cases m) simp_all
  from "5.prems"(1) have "collectFilesStack n st (FromFileSet (stateFileSets st (id' i))) fs = Inr r"
    by simp
  from "5.IH" [OF this le] show ?case unfolding m by simp
next
  case (6 n st fs)
  from "6.prems" show ?case by (cases m) simp_all
next
  case (7 n st fs)
  from "7.prems" show ?case by (cases m) simp_all
next
  case (8 n st i rest fs)
  from "8.prems"(2) obtain m' where m: "m = Suc m'" and le: "n \<le> m'"
    by (cases m) simp_all
  from "8.prems"(1) obtain fs' where
    a: "collectFilesStack n st (FromFileSetId (Some i)) fs = Inr fs'" and
    b: "collectFilesStack (Suc n) st (FromFileSetIds (Some rest)) fs' = Inr r"
    by (auto split: sum.splits)
  from "8.IH"(1) [OF a le] have a': "collectFilesStack m' st (FromFileSetId (Some i)) fs = Inr fs'" .
  from "8.IH"(2) [OF a b "8.prems"(2)]
  have b': "collectFilesStack (Suc m') st (FromFileSetIds (Some rest)) fs' = Inr r"
    unfolding m .
  from a' b' show ?case unfolding m by simp
qed


lemma stack_error:
  "collectFilesStack n st c fs = Inl e \<Longrightarrow> e = RangeError"
proof (induction n st c fs rule: collectFilesStack.induct)
  case (8 n st i rest fs)
  show ?case
  proof (cases "collectFilesStack n st (FromFileSetId (Some i)) fs")
    case (Inl e')
    with "8.prems" have "e' = e" by simp
    with "8.IH"(1) Inl show ?thesis by simp
  next
    case (Inr fs')
    with "8.prems" have "collectFilesStack (Suc n) st (FromFileSetIds (Some rest)) fs' = Inl e"
      by simp
    from "8.IH"(2) [OF Inr this] show ?thesis .
  qed
qed simp_all

lemma stack_sound:
  "collectFilesStack n st c fs = Inr r \<Longrightarrow> collectFiles st c fs = Some r"
proof (induction n st c fs arbitrary: r rule: collectFilesStack.induct)
  case (1 st c fs)
  then show ?case by simp
next
  case (2 n st fs)
  then show ?case by (subst collectFiles.simps) simp
next
  case (3 n st fileSet fs)
  from "3.prems" have "collectFilesStack n st (FromFileSetIds (fileSets fileSet))
      (fold Set_add (case files fileSet of None \<Rightarrow> [] | Some xs \<Rightarrow> xs) fs) = Inr r"
    by simp
  from "3.IH" [OF this] show ?case by (subst collectFiles.simps) simp
next
  case (4 n st fs)
  then show ?case by (subst collectFiles.simps) simp
next
  case (5 n st i fs)
  from "5.prems" have "collectFilesStack n st (FromFileSet (stateFileSets st (id' i))) fs = Inr r"
    by simp
  from "5.IH" [OF this] show ?case by (subst collectFiles.simps) simp
next
  case (6 n st fs)
  then show ?case by (subst collectFiles.simps) simp
next
  case (7 n st fs)
  then show ?case by (subst collectFiles.simps) simp
next
  case (8 n st i rest fs)
  from "8.prems"(1) obtain fs' where
    a: "collectFilesStack n st (FromFileSetId (Some i)) fs = Inr fs'" and
    b: "collectFilesStack (Suc n) st (FromFileSetIds (Some rest)) fs' = Inr r"
    by (auto split: sum.splits)
  from "8.IH"(1) [OF a] "8.IH"(2) [OF a b] show ?case
    by (subst collectFiles.simps) simp
qed

lemma stack_complete:
  assumes "collectFiles st c fs = Some r"
  shows "\<exists>n. collectFilesStack n st c fs = Inr r"
proof (rule collectFiles.raw_induct
    [where P = "\<lambda>st c fs r. \<exists>n. collectFilesStack n st c fs = Inr r", OF _ assms], goal_cases)
  case (1 cf st c fs r)
  show ?case
  proof (cases c)
    case (FromFileSet fso)
    show ?thesis
    proof (cases fso)
      case None
      with FromFileSet 1(2) have "collectFilesStack (Suc 0) st c fs = Inr r" by simp
      then show ?thesis ..
    next
      case (Some fileSet)
      with FromFileSet 1(2) have "cf st (FromFileSetIds (fileSets fileSet))
          (fold Set_add (case files fileSet of None \<Rightarrow> [] | Some xs \<Rightarrow> xs) fs) = Some r" by simp
      from 1(1) [OF this] obtain n where "collectFilesStack n st (FromFileSetIds (fileSets fileSet))
          (fold Set_add (case files fileSet of None \<Rightarrow> [] | Some xs \<Rightarrow> xs) fs) = Inr r" ..
      with FromFileSet Some have "collectFilesStack (Suc n) st c fs = Inr r" by simp
      then show ?thesis ..
    qed
  next
    case (FromFileSetId ido)
    show ?thesis
    proof (cases ido)
      case None
      with FromFileSetId 1(2) have "collectFilesStack (Suc 0) st c fs = Inr r" by simp
      then show ?thesis ..
    next
      case (Some i)
      with FromFileSetId 1(2) have "cf st (FromFileSet (stateFileSets st (id' i))) fs = Some r"
        by simp
      from 1(1) [OF this] obtain n where
        "collectFilesStack n st (FromFileSet (stateFileSets st (id' i))) fs = Inr r" ..
      with FromFileSetId Some have "collectFilesStack (Suc n) st c fs = Inr r" by simp
      then show ?thesis ..
    qed
  next
    case (FromFileSetIds idso)
    show ?thesis
    proof (cases idso)
      case None
      with FromFileSetIds 1(2) have "collectFilesStack (Suc 0) st c fs = Inr r" by simp
      then show ?thesis ..
    next
      case (Some ids)
      show ?thesis
      proof (cases ids)
        case Nil
        with FromFileSetIds Some 1(2) have "collectFilesStack (Suc 0) st c fs = Inr r" by simp
        then show ?thesis ..
      next
        case (Cons i rest)
        with FromFileSetIds Some 1(2) obtain fs' where
          a: "cf st (FromFileSetId (Some i)) fs = Some fs'" and
          b: "cf st (FromFileSetIds (Some rest)) fs' = Some r"
          by (auto simp: bind_eq_Some_conv)
        from 1(1) [OF a] obtain n1 where
          n1: "collectFilesStack n1 st (FromFileSetId (Some i)) fs = Inr fs'" ..
        from 1(1) [OF b] obtain n2 where
          n2: "collectFilesStack n2 st (FromFileSetIds (Some rest)) fs' = Inr r" ..
        from stack_mono [OF n1, of "max n1 n2"]
        have a': "collectFilesStack (max n1 n2) st (FromFileSetId (Some i)) fs = Inr fs'" by simp
        from stack_mono [OF n2, of "Suc (max n1 n2)"]
        have b': "collectFilesStack (Suc (max n1 n2)) st (FromFileSetIds (Some rest)) fs' = Inr r"
          by simp
        from a' b' FromFileSetIds Some Cons
        have "collectFilesStack (Suc (max n1 n2)) st c fs = Inr r" by simp
        then show ?thesis ..
      qed
    qed
  qed
qed

lemma no_result_iff_exhausted:
  "collectFiles st c fs = None \<longleftrightarrow> (\<forall>n. collectFilesStack n st c fs = Inl RangeError)"
proof
  assume none: "collectFiles st c fs = None"
  show "\<forall>n. collectFilesStack n st c fs = Inl RangeError"
  proof
    fix n
    show "collectFilesStack n st c fs = Inl RangeError"
    proof (cases "collectFilesStack n st c fs")
      case (Inl e)
      with stack_error [OF Inl] show ?thesis by simp
    next
      case (Inr r)
      from stack_sound [OF this] none show ?thesis by simp
    qed
  qed
next
  assume all: "\<forall>n. collectFilesStack n st c fs = Inl RangeError"
  show "collectFiles st c fs = None"
  proof (cases "collectFiles st c fs")
    case None
    then show ?thesis .
  next
    case (Some r)
    from stack_complete [OF this] all show ?thesis by auto
  qed
qed


subsection \<open>Returning and the chains of references\<close>

text \<open>
  The resolver returns at some depth of the call stack exactly when every chain of
  references from the identifiers ends; in a map with finitely many keys the chains
  end exactly when no cycle is reachable.
\<close>

lemma returns_ends:
  "collectFilesStack n st c fs = Inr r \<Longrightarrow>
     (\<forall>i. c = FromFileSetId (Some i) \<longrightarrow> chainsEnd st (id' i)) \<and>
     (\<forall>ids. c = FromFileSetIds (Some ids) \<longrightarrow> (\<forall>i \<in> set ids. chainsEnd st (id' i))) \<and>
     (\<forall>fileSet ids. c = FromFileSet (Some fileSet) \<longrightarrow> fileSets fileSet = Some ids \<longrightarrow>
        (\<forall>i \<in> set ids. chainsEnd st (id' i)))"
proof (induction n st c fs arbitrary: r rule: collectFilesStack.induct)
  case (3 n st fileSet fs)
  from "3.prems" have "collectFilesStack n st (FromFileSetIds (fileSets fileSet))
      (fold Set_add (case files fileSet of None \<Rightarrow> [] | Some xs \<Rightarrow> xs) fs) = Inr r"
    by simp
  from "3.IH" [OF this] show ?case by simp
next
  case (5 n st i fs)
  from "5.prems" have "collectFilesStack n st (FromFileSet (stateFileSets st (id' i))) fs = Inr r"
    by simp
  from "5.IH" [OF this]
  have sub: "\<And>fileSet ids j. stateFileSets st (id' i) = Some fileSet \<Longrightarrow>
      fileSets fileSet = Some ids \<Longrightarrow> j \<in> set ids \<Longrightarrow> chainsEnd st (id' j)"
    by simp
  have "chainsEnd st (id' i)"
  proof (rule chainsEnd.intros)
    fix k'
    assume "(id' i, k') \<in> refs st"
    then obtain fileSet ids j where "stateFileSets st (id' i) = Some fileSet"
      "fileSets fileSet = Some ids" "j \<in> set ids" "k' = id' j"
      by (auto simp: refs_def)
    with sub show "chainsEnd st k'" by blast
  qed
  then show ?case by simp
next
  case (8 n st i rest fs)
  from "8.prems"(1) obtain fs' where
    a: "collectFilesStack n st (FromFileSetId (Some i)) fs = Inr fs'" and
    b: "collectFilesStack (Suc n) st (FromFileSetIds (Some rest)) fs' = Inr r"
    by (auto split: sum.splits)
  from "8.IH"(1) [OF a] "8.IH"(2) [OF a b] show ?case by simp
qed simp_all

lemma uniform_depth:
  assumes "\<And>j. j \<in> set ids \<Longrightarrow>
             \<exists>n. \<forall>fs. \<exists>r. collectFilesStack n st (FromFileSetId (Some j)) fs = Inr r"
  shows "\<exists>N. \<forall>j \<in> set ids. \<forall>fs. \<exists>r. collectFilesStack N st (FromFileSetId (Some j)) fs = Inr r"
  using assms
proof (induction ids)
  case Nil
  then show ?case by simp
next
  case (Cons j ids)
  from Cons.prems [of j] obtain n1 where
    n1: "\<forall>fs. \<exists>r. collectFilesStack n1 st (FromFileSetId (Some j)) fs = Inr r" by auto
  from Cons.IH Cons.prems obtain n2 where
    n2: "\<forall>j' \<in> set ids. \<forall>fs. \<exists>r. collectFilesStack n2 st (FromFileSetId (Some j')) fs = Inr r"
    by auto
  have "\<forall>j' \<in> set (j # ids). \<forall>fs. \<exists>r.
          collectFilesStack (max n1 n2) st (FromFileSetId (Some j')) fs = Inr r"
  proof (intro ballI allI)
    fix j' fs
    assume "j' \<in> set (j # ids)"
    then consider "j' = j" | "j' \<in> set ids" by auto
    then show "\<exists>r. collectFilesStack (max n1 n2) st (FromFileSetId (Some j')) fs = Inr r"
    proof cases
      case 1
      from n1 obtain r where "collectFilesStack n1 st (FromFileSetId (Some j)) fs = Inr r" by blast
      from stack_mono [OF this, of "max n1 n2"] 1 show ?thesis by auto
    next
      case 2
      with n2 obtain r where "collectFilesStack n2 st (FromFileSetId (Some j')) fs = Inr r"
        by blast
      from stack_mono [OF this, of "max n1 n2"] show ?thesis by auto
    qed
  qed
  then show ?case ..
qed

lemma loop_returns:
  assumes "\<forall>j \<in> set ids. \<forall>fs. \<exists>r. collectFilesStack N st (FromFileSetId (Some j)) fs = Inr r"
  shows "\<exists>r. collectFilesStack (Suc N) st (FromFileSetIds (Some ids)) fs = Inr r"
  using assms
proof (induction ids arbitrary: fs)
  case Nil
  then show ?case by simp
next
  case (Cons j ids)
  from Cons.prems have "\<forall>fs. \<exists>r. collectFilesStack N st (FromFileSetId (Some j)) fs = Inr r"
    by simp
  then obtain fs' where
    a: "collectFilesStack N st (FromFileSetId (Some j)) fs = Inr fs'" by blast
  from Cons.IH [of fs'] Cons.prems obtain r where
    "collectFilesStack (Suc N) st (FromFileSetIds (Some ids)) fs' = Inr r" by auto
  with a show ?case by simp
qed

lemma ends_returns:
  "chainsEnd st k \<Longrightarrow>
   \<exists>n. \<forall>i fs. id' i = k \<longrightarrow> (\<exists>r. collectFilesStack n st (FromFileSetId (Some i)) fs = Inr r)"
proof (induction rule: chainsEnd.induct)
  case (1 k)
  show ?case
  proof (cases "stateFileSets st k")
    case None
    then have "\<forall>i fs. id' i = k \<longrightarrow>
        (\<exists>r. collectFilesStack (Suc (Suc 0)) st (FromFileSetId (Some i)) fs = Inr r)"
      by simp
    then show ?thesis ..
  next
    case (Some fileSet)
    show ?thesis
    proof (cases "fileSets fileSet")
      case None
      with Some have "\<forall>i fs. id' i = k \<longrightarrow>
          (\<exists>r. collectFilesStack (Suc (Suc (Suc 0))) st (FromFileSetId (Some i)) fs = Inr r)"
        by simp
      then show ?thesis ..
    next
      case ids: (Some ids)
      have "\<exists>n. \<forall>fs. \<exists>r. collectFilesStack n st (FromFileSetId (Some j)) fs = Inr r"
        if "j \<in> set ids" for j
      proof -
        from that Some ids have "(k, id' j) \<in> refs st"
          by (auto simp: refs_def)
        from "1.IH" [OF this] show ?thesis by blast
      qed
      from uniform_depth [of ids st, OF this] obtain N where
        N: "\<forall>j \<in> set ids. \<forall>fs. \<exists>r. collectFilesStack N st (FromFileSetId (Some j)) fs = Inr r"
        by blast
      have "\<forall>i fs. id' i = k \<longrightarrow>
          (\<exists>r. collectFilesStack (Suc (Suc (Suc N))) st (FromFileSetId (Some i)) fs = Inr r)"
        using Some ids loop_returns [OF N] by simp
      then show ?thesis ..
    qed
  qed
qed

lemma chainsEnd_step: "chainsEnd st k \<Longrightarrow> (k, k') \<in> refs st \<Longrightarrow> chainsEnd st k'"
  by (erule chainsEnd.cases) blast

lemma chainsEnd_closed: "(k, k') \<in> (refs st)\<^sup>* \<Longrightarrow> chainsEnd st k \<Longrightarrow> chainsEnd st k'"
  by (induction rule: rtrancl_induct) (auto intro: chainsEnd_step)

lemma chainsEnd_no_cycle: "chainsEnd st k \<Longrightarrow> (k, k) \<notin> (refs st)\<^sup>+"
proof (induction rule: chainsEnd.induct)
  case (1 k)
  show ?case
  proof
    assume "(k, k) \<in> (refs st)\<^sup>+"
    then obtain k' where s: "(k, k') \<in> refs st" and t: "(k', k) \<in> (refs st)\<^sup>*"
      by (meson tranclD)
    then have "(k', k') \<in> (refs st)\<^sup>+" by (meson rtrancl_into_trancl1)
    with "1.IH" [OF s] show False by simp
  qed
qed

lemma finite_refs:
  assumes "finite (dom (stateFileSets st))"
  shows "finite (refs st)"
proof -
  have "refs st \<subseteq> (\<Union>k \<in> dom (stateFileSets st).
      (\<lambda>i. (k, id' i)) ` set (case fileSets (the (stateFileSets st k)) of
                                None \<Rightarrow> [] | Some ids \<Rightarrow> ids))"
    by (auto simp: refs_def)
  moreover have "finite (\<Union>k \<in> dom (stateFileSets st).
      (\<lambda>i. (k, id' i)) ` set (case fileSets (the (stateFileSets st k)) of
                                None \<Rightarrow> [] | Some ids \<Rightarrow> ids))"
    using assms by (intro finite_UN_I finite_imageI finite_set)
  ultimately show ?thesis by (rule finite_subset)
qed

lemma no_cycle_ends:
  assumes fin: "finite (refs st)"
    and nc: "\<And>k'. (k, k') \<in> (refs st)\<^sup>* \<Longrightarrow> (k', k') \<notin> (refs st)\<^sup>+"
  shows "chainsEnd st k"
proof -
  define R where "R = {(a, b). (a, b) \<in> refs st \<and> (k, a) \<in> (refs st)\<^sup>*}"
  have sub: "R \<subseteq> refs st" by (auto simp: R_def)
  then have finR: "finite R" using fin by (rule finite_subset)
  have "acyclic R"
  proof (rule acyclicI, rule allI, rule notI)
    fix a
    assume c: "(a, a) \<in> R\<^sup>+"
    then obtain b where "(a, b) \<in> R" by (meson tranclD)
    then have reach: "(k, a) \<in> (refs st)\<^sup>*" by (simp add: R_def)
    from c sub have "(a, a) \<in> (refs st)\<^sup>+" by (meson trancl_mono)
    with nc [OF reach] show False by simp
  qed
  with finR have wf: "wf (R\<inverse>)" by (rule finite_acyclic_wf_converse)
  have "(k, a) \<in> (refs st)\<^sup>* \<longrightarrow> chainsEnd st a" for a
  proof (induction a rule: wf_induct_rule [OF wf])
    case (1 a)
    show ?case
    proof
      assume reach: "(k, a) \<in> (refs st)\<^sup>*"
      show "chainsEnd st a"
      proof (rule chainsEnd.intros)
        fix b
        assume e: "(a, b) \<in> refs st"
        with reach have "(b, a) \<in> R\<inverse>" by (simp add: R_def)
        moreover from reach e have "(k, b) \<in> (refs st)\<^sup>*" by (meson rtrancl_into_rtrancl)
        ultimately show "chainsEnd st b" using "1.IH" by blast
      qed
    qed
  qed
  then show ?thesis by blast
qed

lemma ends_iff_no_cycle:
  assumes "finite (dom (stateFileSets st))"
  shows "(\<forall>i \<in> set (case ids of None \<Rightarrow> [] | Some l \<Rightarrow> l). chainsEnd st (id' i))
           \<longleftrightarrow> \<not> cycleReachable st ids"
proof
  assume e: "\<forall>i \<in> set (case ids of None \<Rightarrow> [] | Some l \<Rightarrow> l). chainsEnd st (id' i)"
  show "\<not> cycleReachable st ids"
  proof
    assume "cycleReachable st ids"
    then obtain i k where i: "i \<in> set (case ids of None \<Rightarrow> [] | Some l \<Rightarrow> l)"
      and r: "(id' i, k) \<in> (refs st)\<^sup>*" and c: "(k, k) \<in> (refs st)\<^sup>+"
      by (auto simp: cycleReachable_def)
    from e i have "chainsEnd st (id' i)" by blast
    from chainsEnd_closed [OF r this] have "chainsEnd st k" .
    from chainsEnd_no_cycle [OF this] c show False by simp
  qed
next
  assume n: "\<not> cycleReachable st ids"
  show "\<forall>i \<in> set (case ids of None \<Rightarrow> [] | Some l \<Rightarrow> l). chainsEnd st (id' i)"
  proof
    fix i
    assume i: "i \<in> set (case ids of None \<Rightarrow> [] | Some l \<Rightarrow> l)"
    show "chainsEnd st (id' i)"
    proof (rule no_cycle_ends [OF finite_refs [OF assms]])
      fix k'
      assume "(id' i, k') \<in> (refs st)\<^sup>*"
      with n i show "(k', k') \<notin> (refs st)\<^sup>+"
        by (auto simp: cycleReachable_def)
    qed
  qed
qed

lemma returns_iff_ends:
  "(\<exists>n. \<forall>m \<ge> n. \<exists>r. collectFilesFromFileSetIds_stack m st ids fs = Inr r) \<longleftrightarrow>
   (\<forall>i \<in> set (case ids of None \<Rightarrow> [] | Some l \<Rightarrow> l). chainsEnd st (id' i))"
proof
  assume "\<exists>n. \<forall>m \<ge> n. \<exists>r. collectFilesFromFileSetIds_stack m st ids fs = Inr r"
  then obtain n r where r: "collectFilesStack n st (FromFileSetIds ids) fs = Inr r"
    unfolding collectFilesFromFileSetIds_stack_def by blast
  show "\<forall>i \<in> set (case ids of None \<Rightarrow> [] | Some l \<Rightarrow> l). chainsEnd st (id' i)"
  proof (cases ids)
    case None
    then show ?thesis by simp
  next
    case (Some l)
    with returns_ends [OF r] show ?thesis by simp
  qed
next
  assume e: "\<forall>i \<in> set (case ids of None \<Rightarrow> [] | Some l \<Rightarrow> l). chainsEnd st (id' i)"
  have "\<exists>n r. collectFilesStack n st (FromFileSetIds ids) fs = Inr r"
  proof (cases ids)
    case None
    then have "collectFilesStack (Suc 0) st (FromFileSetIds ids) fs = Inr fs" by simp
    then show ?thesis by blast
  next
    case (Some l)
    have "\<exists>n. \<forall>fs. \<exists>r. collectFilesStack n st (FromFileSetId (Some j)) fs = Inr r"
      if "j \<in> set l" for j
    proof -
      from that e Some have "chainsEnd st (id' j)" by simp
      from ends_returns [OF this] show ?thesis by blast
    qed
    from uniform_depth [of l st, OF this] obtain N where
      "\<forall>j \<in> set l. \<forall>fs. \<exists>r. collectFilesStack N st (FromFileSetId (Some j)) fs = Inr r"
      by blast
    from loop_returns [OF this, of fs] Some show ?thesis by blast
  qed
  then obtain n r where r: "collectFilesStack n st (FromFileSetIds ids) fs = Inr r" by blast
  have "\<forall>m \<ge> n. \<exists>r. collectFilesFromFileSetIds_stack m st ids fs = Inr r"
    unfolding collectFilesFromFileSetIds_stack_def using stack_mono [OF r] by blast
  then show "\<exists>n. \<forall>m \<ge> n. \<exists>r. collectFilesFromFileSetIds_stack m st ids fs = Inr r" ..
qed

lemma cycle_exhausts:
  assumes "cycleReachable st ids"
  shows "collectFilesStack n st (FromFileSetIds ids) fs = Inl RangeError"
proof (cases "collectFilesStack n st (FromFileSetIds ids) fs")
  case (Inl e)
  with stack_error [OF Inl] show ?thesis by simp
next
  case (Inr r)
  from assms obtain i k where i: "i \<in> set (case ids of None \<Rightarrow> [] | Some l \<Rightarrow> l)"
    and reach: "(id' i, k) \<in> (refs st)\<^sup>*" and cyc: "(k, k) \<in> (refs st)\<^sup>+"
    by (auto simp: cycleReachable_def)
  from i obtain l where l: "ids = Some l" and il: "i \<in> set l"
    by (cases ids) simp_all
  from returns_ends [OF Inr] l il have "chainsEnd st (id' i)" by simp
  from chainsEnd_closed [OF reach this] have "chainsEnd st k" .
  from chainsEnd_no_cycle [OF this] cyc show ?thesis by simp
qed

lemma nested_value:
  "collectFilesFromFileSetIds nestedState (Some [\<lparr>id' = Some ''A''\<rparr>]) [] = Some [1, 2]"
  by (simp add: collect_simps nestedState_def BuildEventState_new_def Set_add_def)

text \<open>
  The set \<open>A\<close> of \<open>nestedState\<close> nests one set: seven frames are enough, six are
  not. Identifiers that are absent take three frames, whatever the map stores.
\<close>

lemma nested_stack_enough:
  "collectFilesFromFileSetIds_stack (Suc (Suc (Suc (Suc (Suc (Suc (Suc 0))))))) nestedState
     (Some [\<lparr>id' = Some ''A''\<rparr>]) [] = Inr [1, 2]"
  by (simp add: collectFilesFromFileSetIds_stack_def nestedState_def BuildEventState_new_def
      Set_add_def)

lemma nested_stack_short:
  "collectFilesFromFileSetIds_stack (Suc (Suc (Suc (Suc (Suc (Suc 0)))))) nestedState
     (Some [\<lparr>id' = Some ''A''\<rparr>]) [] = Inl RangeError"
  by (simp add: collectFilesFromFileSetIds_stack_def nestedState_def BuildEventState_new_def
      Set_add_def)

lemma unresolved_ids_stack:
  "\<forall>i \<in> set ids. stateFileSets st (id' i) = None \<Longrightarrow>
   collectFilesFromFileSetIds_stack (Suc (Suc (Suc n))) st (Some ids) fs = Inr fs"
  unfolding collectFilesFromFileSetIds_stack_def
  by (induction ids) simp_all

text \<open>
  \<open>mixedState\<close> stores a cycle, which the identifiers \<open>C\<close> and \<open>D\<close> do not
  reach: the resolver returns the files of \<open>C\<close>.
\<close>

lemma mixed_stores_cycle: "(Some ''A'', Some ''A'') \<in> refs mixedState"
  by (simp add: refs_def mixedState_def BuildEventState_new_def)

lemma mixed_returns:
  "collectFilesFromFileSetIds_stack (Suc (Suc (Suc (Suc 0)))) mixedState
     (Some [\<lparr>id' = Some ''C''\<rparr>, \<lparr>id' = Some ''D''\<rparr>]) [] = Inr [5, 6]"
  by (simp add: collectFilesFromFileSetIds_stack_def mixedState_def BuildEventState_new_def
      Set_add_def)

lemma example_states_finite:
  "finite (dom (stateFileSets nestedState))"
  "finite (dom (stateFileSets cyclicState))"
  "finite (dom (stateFileSets mixedState))"
  by (simp_all add: nestedState_def cyclicState_def mixedState_def BuildEventState_new_def)

lemma cyclic_reachable: "cycleReachable cyclicState (Some [\<lparr>id' = Some ''A''\<rparr>])"
proof -
  have "(Some ''A'', Some ''A'') \<in> refs cyclicState"
    by (simp add: refs_def cyclicState_def BuildEventState_new_def)
  then have "(Some ''A'', Some ''A'') \<in> (refs cyclicState)\<^sup>+" ..
  then show ?thesis
    unfolding cycleReachable_def by (intro exI [of _ "\<lparr>id' = Some ''A''\<rparr>"] exI [of _ "Some ''A''"]) simp
qed

lemma two_cycle_reachable: "cycleReachable twoCycleState (Some [\<lparr>id' = Some ''A''\<rparr>])"
proof -
  have "(Some ''A'', Some ''B'') \<in> refs twoCycleState"
    and "(Some ''B'', Some ''A'') \<in> refs twoCycleState"
    by (simp_all add: refs_def twoCycleState_def BuildEventState_new_def)
  then have "(Some ''A'', Some ''A'') \<in> (refs twoCycleState)\<^sup>+" by (meson trancl.simps)
  then show ?thesis
    unfolding cycleReachable_def
    by (intro exI [of _ "\<lparr>id' = Some ''A''\<rparr>"] exI [of _ "Some ''A''"]) simp
qed

lemma two_cycle_exhausts:
  "collectFilesFromFileSetIds_stack n twoCycleState (Some [\<lparr>id' = Some ''A''\<rparr>]) fs
     = Inl RangeError"
  unfolding collectFilesFromFileSetIds_stack_def
  by (rule cycle_exhausts [OF two_cycle_reachable])

subsection \<open>A set that references itself\<close>

lemma no_result_on_cycle:
  assumes "collectFiles st c fs = Some y"
  shows "\<not> onCycle st c"
proof (rule collectFiles.raw_induct [where P = "\<lambda>st c fs y. \<not> onCycle st c", OF _ assms],
    goal_cases)
  case (1 cf st c fs y)
  show ?case
  proof
    assume a: "onCycle st c"
    then consider
        (fromSet) "c = FromFileSet (Some \<lparr>files = Some [], fileSets = Some [\<lparr>id' = Some ''A''\<rparr>]\<rparr>)"
      | (fromId) "c = FromFileSetId (Some \<lparr>id' = Some ''A''\<rparr>)"
      | (fromIds) rest where "c = FromFileSetIds (Some (\<lparr>id' = Some ''A''\<rparr> # rest))"
      unfolding onCycle_def by blast
    then show False
    proof cases
      case fromSet
      with 1(2) have "cf st (FromFileSetIds (Some [\<lparr>id' = Some ''A''\<rparr>])) fs = Some y"
        by simp
      from 1(1) [OF this] a show False by (simp add: onCycle_def)
    next
      case fromId
      with 1(2) a have "cf st
          (FromFileSet (Some \<lparr>files = Some [], fileSets = Some [\<lparr>id' = Some ''A''\<rparr>]\<rparr>)) fs = Some y"
        by (simp add: onCycle_def cyclicState_def BuildEventState_new_def)
      from 1(1) [OF this] a show False by (simp add: onCycle_def)
    next
      case fromIds
      with 1(2) obtain fs' where
        "cf st (FromFileSetId (Some \<lparr>id' = Some ''A''\<rparr>)) fs = Some fs'"
        by (auto simp: bind_eq_Some_conv)
      from 1(1) [OF this] a show False by (simp add: onCycle_def)
    qed
  qed
qed

subsection \<open>What \<open>reset\<close> touches\<close>

lemma reset_fields:
  "stateFileSets (reset st) = Map.empty"
  "stateWorkspaceInfo (reset st) = None"
  "stateStarted (reset st) = None"
  "targetsConfigured (reset st) = targetsConfigured st"
  by (simp_all add: reset_def)

section \<open>Properties of the items\<close>

subsection \<open>The item that ends a build\<close>

lemma BuildFinishedItem_new_throws_iff:
  "BuildFinishedItem_new fin st = Inl TypeError \<longleftrightarrow>
     finishTimeMillis fin = None \<or> st = None \<or> (\<exists>s. st = Some s \<and> startTimeMillis s = None)"
  by (auto simp: BuildFinishedItem_new_def Long_fromValue_def Let_def
      split: option.splits LongValue.splits sum.splits)

lemma BuildFinishedItem_new_label:
  assumes "Long_fromValue (finishTimeMillis fin) = Inr end"
    and "Long_fromValue (startTimeMillis s) = Inr start"
  shows "BuildFinishedItem_new fin (Some s) =
           Inr (Some (end - start),
                exitCodeName fin @ '' ('' @ Long_toString (end - start) @ ''ms)'')"
  using assms by (simp add: BuildFinishedItem_new_def Long_sub_def)

lemma Long_sub_exact:
  fixes a b :: Long
  assumes "- (2 ^ 63) \<le> sint a - sint b" and "sint a - sint b < 2 ^ 63"
  shows "sint (Long_sub a b) = sint a - sint b"
proof -
  have "sint (a - b) = signed_take_bit 63 (sint a - sint b)"
    by (simp add: sint_word_ariths)
  also have "\<dots> = sint a - sint b"
    using assms by (simp add: signed_take_bit_int_eq_self)
  finally show ?thesis by (simp add: Long_sub_def)
qed

lemma Long_fromNumber_exact:
  assumes "- (2 ^ 63) < v" and "v < 2 ^ 63 - 1"
  shows "sint (Long_fromNumber v) = v"
proof -
  have "sint (word_of_int v :: Long) = signed_take_bit 63 v"
    by (simp add: sint_sbintrunc')
  also have "\<dots> = v"
    using assms by (simp add: signed_take_bit_int_eq_self)
  finally show ?thesis using assms by (simp add: Long_fromNumber_def)
qed

lemma label_1500:
  "BuildFinishedItem_new finishedPayload
     (Some \<lparr>uuid = None, startTimeMillis = Some (Number 1000), buildToolVersion = None,
            command = None, workspaceDirectory = None\<rparr>)
   = Inr (Some 1500, ''SUCCESS (1500ms)'')"
  by (simp add: BuildFinishedItem_new_def Long_fromValue_def Long_fromNumber_def Long_sub_def
      Long_toString_def digitChar_def exitCodeName_def finishedPayload_def)

subsection \<open>The end of a build\<close>

lemma handleFinishedEvent_built:
  assumes "BuildFinishedItem_new fin (stateStarted (state v)) = Inr (d, l)"
  shows "handleFinishedEvent v e fin =
           (None, v\<lparr>items := filter attention (items v) @
                      [if overallSuccess fin = Some True then BuildSuccessItem e d l
                       else BuildFailedItem e d l]\<rparr>)"
  using assms
  by (simp add: handleFinishedEvent_def BuildSuccessItem_new_def BuildFailedItem_new_def
      addItem_def Let_def)

lemma handleFinishedEvent_attention:
  assumes "BuildFinishedItem_new fin (stateStarted (state v)) = Inr (d, l)"
  shows "\<forall>x \<in> set (items (snd (handleFinishedEvent v e fin))). attention x"
    and "attention (last (items (snd (handleFinishedEvent v e fin))))"
    and "BuildStartedItem e0 \<in> set (items v) \<Longrightarrow>
         BuildStartedItem e0 \<in> set (items (snd (handleFinishedEvent v e fin)))"
  by (simp_all add: handleFinishedEvent_built [OF assms])

lemma handleFinishedEvent_throws:
  assumes "BuildFinishedItem_new fin (stateStarted (state v)) = Inl err"
  shows "handleFinishedEvent v e fin = (Some err, v\<lparr>items := filter attention (items v)\<rparr>)"
  using assms
  by (simp add: handleFinishedEvent_def BuildSuccessItem_new_def BuildFailedItem_new_def Let_def)

lemma finished_all_attention:
  "bes_payload e = finished fin \<Longrightarrow>
   \<forall>x \<in> set (items (snd (handleBazelBuildEvent v e))). attention x"
  by (auto simp: handleBazelBuildEvent_def handleFinishedEvent_def addItem_def Let_def
      BuildSuccessItem_new_def BuildFailedItem_new_def split: sum.splits prod.splits)

lemma started_adds_item:
  "bes_payload e0 = started s \<Longrightarrow>
   items (snd (handleBazelBuildEvent v e0)) = [BuildStartedItem e0]"
  by (simp add: handleBazelBuildEvent_def handleStartedEvent_def clear_def addItem_def Let_def)

lemma replace_last_keeps_started:
  assumes "xs \<noteq> []" "isActionSuccessItem (last xs)" "BuildStartedItem e0 \<in> set xs"
  shows "BuildStartedItem e0 \<in> set (xs[length xs - 1 := x])"
proof -
  from assms(1) obtain ys y where xs: "xs = ys @ [y]"
    by (metis rev_exhaust)
  with assms(2,3) have "BuildStartedItem e0 \<in> set ys" by auto
  then show ?thesis unfolding xs by simp
qed

lemma handleBazelBuildEvent_keeps_started:
  assumes "\<not> isStartedEvent e" and "BuildStartedItem e0 \<in> set (items v)"
  shows "BuildStartedItem e0 \<in> set (items (snd (handleBazelBuildEvent v e)))"
proof (cases "bes_payload e")
  case (started s)
  with assms(1) show ?thesis by (simp add: isStartedEvent_def)
next
  case (workspaceInfo w)
  with assms show ?thesis
    by (simp add: handleBazelBuildEvent_def handleWorkspaceInfoEvent_def)
next
  case (action a)
  show ?thesis
  proof (cases "success a = Some True \<and> lastIsActionSuccessItem (items v)")
    case True
    then have ne: "items v \<noteq> []" and ls: "isActionSuccessItem (last (items v))"
      by (auto simp: lastIsActionSuccessItem_def split: list.splits)
    from replace_last_keeps_started [OF ne ls assms(2)]
    have "BuildStartedItem e0 \<in> set ((items v)[length (items v) - 1 := ActionSuccessItem e])" .
    with True action ne show ?thesis
      by (simp add: handleBazelBuildEvent_def handleActionExecutedEvent_def
          handleActionExecutedEventSuccess_def replaceLastItem_def)
  next
    case False
    with assms action show ?thesis
      by (auto simp: handleBazelBuildEvent_def handleActionExecutedEvent_def
          handleActionExecutedEventSuccess_def addItem_def)
  qed
next
  case (namedSetOfFiles fileSet)
  with assms show ?thesis
    by (simp add: handleBazelBuildEvent_def handleNamedSetOfFilesEvent_def)
next
  case (configured conf)
  with assms show ?thesis
    by (simp add: handleBazelBuildEvent_def handleTargetConfiguredEvent_def)
next
  case (completed c)
  with assms show ?thesis
    by (simp add: handleBazelBuildEvent_def handleCompletedEvent_def addItem_def)
next
  case (finished fin)
  with assms show ?thesis
    by (auto simp: handleBazelBuildEvent_def handleFinishedEvent_def addItem_def Let_def
        BuildSuccessItem_new_def BuildFailedItem_new_def split: sum.splits)
next
  case (testResult t)
  with assms show ?thesis
    by (simp add: handleBazelBuildEvent_def handleTestResultEvent_def addItem_def)
next
  case other
  with assms show ?thesis
    by (simp add: handleBazelBuildEvent_def)
qed

lemma session_keeps_started:
  "\<forall>e \<in> set es. \<not> isStartedEvent e \<Longrightarrow> BuildStartedItem e0 \<in> set (items v) \<Longrightarrow>
   BuildStartedItem e0 \<in> set (items (handleBazelBuildEvents v es))"
  by (induction es arbitrary: v) (auto simp: handleBazelBuildEvent_keeps_started)

text \<open>A build with both timestamps, from its start to its end.\<close>

lemma example_session:
  "items (handleBazelBuildEvents BuildEventProtocolView_new
      [startedEvent (Some (Number 1000)), actionEvent 2 True, actionEvent 3 True,
       failedActionEvent, completedEvent ''A'', finishedEvent])
   = [BuildStartedItem (startedEvent (Some (Number 1000))),
      ActionFailedItem failedActionEvent,
      BuildSuccessItem finishedEvent (Some 1500) ''SUCCESS (1500ms)'']"
  by (simp add: handleBazelBuildEvent_def handleFinishedEvent_def finishedEvent_def
      finishedPayload_def startedEvent_def actionEvent_def failedActionEvent_def
      completedEvent_def completedPayload_def handleStartedEvent_def handleCompletedEvent_def
      handleActionExecutedEvent_def handleActionExecutedEventSuccess_def
      lastIsActionSuccessItem_def replaceLastItem_def clear_def addItem_def reset_def
      BuildEventProtocolView_new_def BuildEventState_new_def BuildSuccessItem_new_def
      BuildFinishedItem_new_def Long_fromValue_def Long_fromNumber_def Long_sub_def
      Long_toString_def digitChar_def exitCodeName_def Let_def)

subsection \<open>Neighbouring successful actions\<close>

lemma consecutive_snoc:
  "consecutiveActionSuccess (xs @ [x]) \<longleftrightarrow>
     consecutiveActionSuccess xs \<or> (xs \<noteq> [] \<and> isActionSuccessItem (last xs) \<and> isActionSuccessItem x)"
  by (induction xs rule: consecutiveActionSuccess.induct) auto

lemma no_success_no_consecutive:
  "\<forall>x \<in> set xs. \<not> isActionSuccessItem x \<Longrightarrow> \<not> consecutiveActionSuccess xs"
  by (induction xs rule: consecutiveActionSuccess.induct) auto

lemma attention_not_success: "attention x \<Longrightarrow> \<not> isActionSuccessItem x"
  by (cases x) auto

lemma filter_attention_no_consecutive: "\<not> consecutiveActionSuccess (filter attention xs)"
  by (rule no_success_no_consecutive) (auto simp: attention_not_success)

lemma replace_last_snoc: "(xs @ [y])[length (xs @ [y]) - 1 := x] = xs @ [x]"
  by simp

lemma consecutive_replace_last:
  assumes "xs \<noteq> []" "\<not> consecutiveActionSuccess xs" "isActionSuccessItem (last xs)"
  shows "\<not> consecutiveActionSuccess (xs[length xs - 1 := x])"
proof -
  from assms(1) obtain ys y where xs: "xs = ys @ [y]"
    by (metis rev_exhaust)
  with assms(2,3) have "\<not> consecutiveActionSuccess ys" and "isActionSuccessItem y"
    and "\<not> (ys \<noteq> [] \<and> isActionSuccessItem (last ys))"
    by (auto simp: consecutive_snoc)
  then show ?thesis unfolding xs replace_last_snoc
    by (auto simp: consecutive_snoc)
qed

lemma lastIsActionSuccessItem_nonempty:
  "ys \<noteq> [] \<Longrightarrow> lastIsActionSuccessItem ys = isActionSuccessItem (last ys)"
  by (cases ys) (simp_all add: lastIsActionSuccessItem_def)

lemma lastIsActionSuccessItem_snoc:
  "lastIsActionSuccessItem (xs @ [x]) = isActionSuccessItem x"
  by (simp add: lastIsActionSuccessItem_nonempty)

lemma handleBazelBuildEvent_no_consecutive:
  assumes "\<not> consecutiveActionSuccess (items v)"
  shows "\<not> consecutiveActionSuccess (items (snd (handleBazelBuildEvent v e)))"
proof (cases "bes_payload e")
  case (started s)
  then show ?thesis
    by (simp add: handleBazelBuildEvent_def handleStartedEvent_def clear_def addItem_def Let_def)
next
  case (workspaceInfo w)
  with assms show ?thesis
    by (simp add: handleBazelBuildEvent_def handleWorkspaceInfoEvent_def)
next
  case (action a)
  show ?thesis
  proof (cases "success a = Some True")
    case True
    show ?thesis
    proof (cases "lastIsActionSuccessItem (items v)")
      case last: True
      then have ne: "items v \<noteq> []" and ls: "isActionSuccessItem (last (items v))"
        by (auto simp: lastIsActionSuccessItem_def split: list.splits)
      from consecutive_replace_last [OF ne assms ls]
      have "\<not> consecutiveActionSuccess ((items v)[length (items v) - 1 := ActionSuccessItem e])" .
      with True action last ne show ?thesis
        by (simp add: handleBazelBuildEvent_def handleActionExecutedEvent_def
            handleActionExecutedEventSuccess_def replaceLastItem_def)
    next
      case nolast: False
      then have "items v = [] \<or> \<not> isActionSuccessItem (last (items v))"
        by (auto simp: lastIsActionSuccessItem_def split: list.splits)
      with assms True action nolast show ?thesis
        by (auto simp: handleBazelBuildEvent_def handleActionExecutedEvent_def
            handleActionExecutedEventSuccess_def addItem_def consecutive_snoc)
    qed
  next
    case False
    with assms action show ?thesis
      by (simp add: handleBazelBuildEvent_def handleActionExecutedEvent_def addItem_def
          consecutive_snoc)
  qed
next
  case (namedSetOfFiles fileSet)
  with assms show ?thesis
    by (simp add: handleBazelBuildEvent_def handleNamedSetOfFilesEvent_def)
next
  case (configured conf)
  with assms show ?thesis
    by (simp add: handleBazelBuildEvent_def handleTargetConfiguredEvent_def)
next
  case (completed c)
  with assms show ?thesis
    by (simp add: handleBazelBuildEvent_def handleCompletedEvent_def addItem_def consecutive_snoc)
next
  case (finished fin)
  then show ?thesis
    by (auto simp: handleBazelBuildEvent_def handleFinishedEvent_def addItem_def Let_def
        BuildSuccessItem_new_def BuildFailedItem_new_def consecutive_snoc
        filter_attention_no_consecutive split: sum.splits)
next
  case (testResult t)
  with assms show ?thesis
    by (simp add: handleBazelBuildEvent_def handleTestResultEvent_def addItem_def consecutive_snoc)
next
  case other
  with assms show ?thesis
    by (simp add: handleBazelBuildEvent_def)
qed

lemma handleBazelBuildEvents_no_consecutive:
  "\<not> consecutiveActionSuccess (items v) \<Longrightarrow>
   \<not> consecutiveActionSuccess (items (handleBazelBuildEvents v es))"
  by (induction es arbitrary: v) (auto simp: handleBazelBuildEvent_no_consecutive)

lemma success_action_replaces:
  assumes "isSuccessAction e" "items v = xs @ [ActionSuccessItem e0]"
  shows "items (snd (handleBazelBuildEvent v e)) = xs @ [ActionSuccessItem e]"
  using assms
  by (auto simp: isSuccessAction_def handleBazelBuildEvent_def handleActionExecutedEvent_def
      handleActionExecutedEventSuccess_def lastIsActionSuccessItem_snoc replaceLastItem_def
      split: Payload.splits)

lemma success_action_appends:
  assumes "isSuccessAction e" "\<not> lastIsActionSuccessItem (items v)"
  shows "items (snd (handleBazelBuildEvent v e)) = items v @ [ActionSuccessItem e]"
  using assms
  by (auto simp: isSuccessAction_def handleBazelBuildEvent_def handleActionExecutedEvent_def
      handleActionExecutedEventSuccess_def addItem_def split: Payload.splits)

subsection \<open>Problems of a failed action\<close>

lemma actionProblems_stderr:
  "success a \<noteq> Some True \<Longrightarrow> stderr a = Some f \<Longrightarrow>
   actionProblems registry readFile parseProblems a =
     fileProblems registry readFile parseProblems (type a) f"
  by (simp add: actionProblems_def)

lemma actionProblems_stdout:
  "success a \<noteq> Some True \<Longrightarrow> stderr a = None \<Longrightarrow> stdout a = Some f \<Longrightarrow>
   actionProblems registry readFile parseProblems a =
     fileProblems registry readFile parseProblems (type a) f"
  by (simp add: actionProblems_def)

lemma no_matcher_leaf:
  "bes_payload e = action a \<Longrightarrow> registry (type a) = None \<Longrightarrow>
   ActionFailedItem_getChildren registry readFile parseProblems e = Inr (None, CollapsibleNone)"
  by (simp add: ActionFailedItem_getChildren_def actionProblems_def fileProblems_def
      split: option.splits)

lemma uri_runs_matcher:
  "registry ty = Some m \<Longrightarrow> contents f = None \<Longrightarrow> uri f = Some u \<Longrightarrow> u \<noteq> [] \<Longrightarrow>
   readFile u = Inr data \<Longrightarrow>
   fileProblems registry readFile parseProblems ty f = Inr (Some (parseProblems m data))"
  by (simp add: fileProblems_def fileUriProblems_def truthy_def)

lemma contents_no_problems:
  "contents f = Some cs \<Longrightarrow> fileProblems registry readFile parseProblems ty f = Inr None"
  by (simp add: fileProblems_def fileContentProblems_def split: option.splits)

section \<open>The claims\<close>

text \<open>
  Claim C1. After a \<open>finished\<close> event every item left in the list has
  \<open>attention = true\<close>, a \<open>BuildSuccessItem\<close> or \<open>BuildFailedItem\<close> is appended as the
  last item, and the \<open>BuildStartedItem\<close> of the session survives. The filtering and the
  survival hold for every event (\<open>finished_all_attention\<close>, \<open>session_keeps_started\<close>),
  and the last item is appended whenever it can be constructed
  (\<open>handleFinishedEvent_built\<close>). The handler filters the list and then constructs the
  last item; the constructor converts both timestamps before its \<open>try\<close> block. On a
  view that has seen no \<open>started\<close> event, and on a build whose \<open>started\<close> event
  carries no \<open>startTimeMillis\<close>, the handler raises a \<open>TypeError\<close> after the
  filtering and appends nothing: the list is empty in the first case and ends with the
  \<open>BuildStartedItem\<close> in the second.
\<close>

theorem finished_without_start_time:
  "fst (handleBazelBuildEvent BuildEventProtocolView_new finishedEvent) = Some TypeError \<and>
   items (snd (handleBazelBuildEvent BuildEventProtocolView_new finishedEvent)) = [] \<and>
   fst (handleBazelBuildEvent
          (handleBazelBuildEvents BuildEventProtocolView_new
             [startedEvent None, actionEvent 2 True])
          finishedEvent) = Some TypeError \<and>
   items (snd (handleBazelBuildEvent
          (handleBazelBuildEvents BuildEventProtocolView_new
             [startedEvent None, actionEvent 2 True])
          finishedEvent)) = [BuildStartedItem (startedEvent None)]"
  by (simp add: handleBazelBuildEvent_def handleFinishedEvent_def finishedEvent_def
      finishedPayload_def startedEvent_def actionEvent_def handleStartedEvent_def
      handleActionExecutedEvent_def handleActionExecutedEventSuccess_def
      lastIsActionSuccessItem_def clear_def addItem_def reset_def
      BuildEventProtocolView_new_def BuildEventState_new_def BuildSuccessItem_new_def
      BuildFinishedItem_new_def Long_fromValue_def Long_fromNumber_def Let_def)

text \<open>
  Claim C2. Over any sequence of events, and so over any sequence of successful
  \<open>action\<close> events, the list of items never holds two neighbouring
  \<open>ActionSuccessItem\<close>s; a successful action that arrives when the last item is an
  \<open>ActionSuccessItem\<close> takes the place of that item, at the same position.
\<close>

theorem no_consecutive_ActionSuccessItem:
  assumes "\<not> consecutiveActionSuccess (items v)"
  shows "\<not> consecutiveActionSuccess (items (handleBazelBuildEvents v es)) \<and>
         (\<forall>e e0 xs. isSuccessAction e \<longrightarrow> items v = xs @ [ActionSuccessItem e0] \<longrightarrow>
            items (snd (handleBazelBuildEvent v e)) = xs @ [ActionSuccessItem e])"
  using assms handleBazelBuildEvents_no_consecutive [of v es] success_action_replaces [of _ v]
  by blast

theorem no_consecutive_ActionSuccessItem_witness:
  "\<not> consecutiveActionSuccess
       (items (handleBazelBuildEvents BuildEventProtocolView_new
          [startedEvent (Some (Number 1000)), actionEvent 2 True])) \<and>
   \<not> consecutiveActionSuccess
       (items (handleBazelBuildEvents
          (handleBazelBuildEvents BuildEventProtocolView_new
             [startedEvent (Some (Number 1000)), actionEvent 2 True])
          [actionEvent 3 True, actionEvent 4 True])) \<and>
   items (snd (handleBazelBuildEvent
      (handleBazelBuildEvents BuildEventProtocolView_new
         [startedEvent (Some (Number 1000)), actionEvent 2 True])
      (actionEvent 3 True)))
     = [BuildStartedItem (startedEvent (Some (Number 1000))), ActionSuccessItem (actionEvent 3 True)]"
proof -
  let ?v = "handleBazelBuildEvents BuildEventProtocolView_new
              [startedEvent (Some (Number 1000)), actionEvent 2 True]"
  have its: "items ?v =
      [BuildStartedItem (startedEvent (Some (Number 1000)))] @ [ActionSuccessItem (actionEvent 2 True)]"
    by (simp add: handleBazelBuildEvent_def startedEvent_def actionEvent_def
        handleStartedEvent_def handleActionExecutedEvent_def handleActionExecutedEventSuccess_def
        lastIsActionSuccessItem_def clear_def addItem_def BuildEventProtocolView_new_def Let_def)
  have h: "\<not> consecutiveActionSuccess (items ?v)"
    unfolding its by simp
  have sa: "isSuccessAction (actionEvent 3 True)"
    by (simp add: isSuccessAction_def actionEvent_def)
  from no_consecutive_ActionSuccessItem [OF h, of "[actionEvent 3 True, actionEvent 4 True]"] h sa its
  show ?thesis by simp
qed

text \<open>
  Claim C3. \<open>reset()\<close> is to clear the file-set map, the target-configured map and the
  workspace and started metadata. The method clears the map of file sets and both
  metadata fields, and leaves the map of configured targets as it is: a target
  configured before the reset still has its kind after it.
\<close>

theorem reset_keeps_configured_target:
  "getTargetKind (reset (handleTargetConfigured BuildEventState_new configuredEvent))
     (completedEvent ''A'') = Some ''cc_library rule'' \<and>
   targetsConfigured (reset (handleTargetConfigured BuildEventState_new configuredEvent))
     \<noteq> Map.empty"
proof -
  have "targetsConfigured (reset (handleTargetConfigured
          (BuildEventState_new :: nat BuildEventState) configuredEvent)) (Some ''//a:b'')
        = Some \<lparr>targetKind = Some ''cc_library rule''\<rparr>"
    by (simp add: reset_def handleTargetConfigured_def BuildEventState_new_def
        configuredEvent_def configuredOf_def)
  then show ?thesis
    by (auto simp: getTargetKind_def completedEvent_def)
qed

text \<open>
  Claim C4, as amended. \<open>collectFilesFromFileSetIds\<close> has no guard of visited
  identifiers and no bound on its recursion. When a cycle of references is reachable
  from the given identifiers, the call ends in the \<open>RangeError\<close> of an exhausted
  call stack, however deep the stack is. Over a map with finitely many stored sets,
  as every map of the tracker is, the call returns a result from some depth of the
  call stack on exactly when no cycle is reachable from the identifiers. How deep
  the stack has to be grows with the nesting (\<open>nested_stack_short\<close>,
  \<open>nested_stack_enough\<close>).
\<close>

theorem collectFilesFromFileSetIds_returns_iff_no_cycle:
  "(cycleReachable st ids \<longrightarrow>
      (\<forall>n. collectFilesFromFileSetIds_stack n st ids fs = Inl RangeError)) \<and>
   (finite (dom (stateFileSets st)) \<longrightarrow>
      ((\<exists>n. \<forall>m \<ge> n. \<exists>r. collectFilesFromFileSetIds_stack m st ids fs = Inr r)
         \<longleftrightarrow> \<not> cycleReachable st ids))"
proof (intro conjI impI allI)
  fix n
  assume "cycleReachable st ids"
  then show "collectFilesFromFileSetIds_stack n st ids fs = Inl RangeError"
    unfolding collectFilesFromFileSetIds_stack_def by (rule cycle_exhausts)
next
  assume "finite (dom (stateFileSets st))"
  then show "(\<exists>n. \<forall>m \<ge> n. \<exists>r. collectFilesFromFileSetIds_stack m st ids fs = Inr r)
            \<longleftrightarrow> \<not> cycleReachable st ids"
    using returns_iff_ends [of st ids fs] ends_iff_no_cycle [of st ids] by simp
qed

theorem collectFilesFromFileSetIds_returns_iff_no_cycle_witness:
  "finite (dom (stateFileSets nestedState)) \<and>
   collectFilesFromFileSetIds_stack (Suc (Suc (Suc (Suc (Suc (Suc (Suc 0))))))) nestedState
     (Some [\<lparr>id' = Some ''A''\<rparr>]) [] = Inr [1, 2] \<and>
   \<not> cycleReachable nestedState (Some [\<lparr>id' = Some ''A''\<rparr>]) \<and>
   finite (dom (stateFileSets cyclicState)) \<and>
   cycleReachable cyclicState (Some [\<lparr>id' = Some ''A''\<rparr>]) \<and>
   collectFilesFromFileSetIds_stack (Suc (Suc (Suc (Suc (Suc 0))))) cyclicState
     (Some [\<lparr>id' = Some ''A''\<rparr>]) [7] = Inl RangeError"
proof -
  let ?ids = "Some [\<lparr>id' = Some ''A''\<rparr>]"
  let ?n = "Suc (Suc (Suc (Suc (Suc (Suc (Suc 0))))))"
  have "collectFilesStack ?n nestedState (FromFileSetIds ?ids) [] = Inr [1, 2]"
    using nested_stack_enough by (simp add: collectFilesFromFileSetIds_stack_def)
  from stack_mono [OF this]
  have "\<exists>n. \<forall>m \<ge> n. \<exists>r. collectFilesFromFileSetIds_stack m nestedState ?ids [] = Inr r"
    unfolding collectFilesFromFileSetIds_stack_def by blast
  with collectFilesFromFileSetIds_returns_iff_no_cycle [of nestedState ?ids "[]"]
    example_states_finite(1)
  have a: "\<not> cycleReachable nestedState ?ids" by blast
  from collectFilesFromFileSetIds_returns_iff_no_cycle [of cyclicState ?ids "[7]"]
    cyclic_reachable
  have b: "collectFilesFromFileSetIds_stack (Suc (Suc (Suc (Suc (Suc 0))))) cyclicState ?ids [7]
             = Inl RangeError"
    by blast
  from a b nested_stack_enough cyclic_reachable example_states_finite show ?thesis by blast
qed

text \<open>
  The claim as stated, that the resolver tolerates a cycle, fails on the state in
  which the set \<open>A\<close> lists itself among its nested sets: at every depth of the call
  stack the resolver raises the \<open>RangeError\<close>, and on a stack that never runs out
  it does not return.
\<close>

theorem collectFilesFromFileSetIds_cyclic_no_result:
  "(\<forall>n. collectFilesFromFileSetIds_stack n cyclicState (Some [\<lparr>id' = Some ''A''\<rparr>]) []
          = Inl RangeError) \<and>
   collectFilesFromFileSetIds cyclicState (Some [\<lparr>id' = Some ''A''\<rparr>]) [] = None"
proof -
  have none: "collectFiles cyclicState (FromFileSetIds (Some [\<lparr>id' = Some ''A''\<rparr>])) [] = None"
  proof (cases "collectFiles cyclicState (FromFileSetIds (Some [\<lparr>id' = Some ''A''\<rparr>])) []")
    case None
    then show ?thesis .
  next
    case (Some y)
    from no_result_on_cycle [OF this] show ?thesis by (simp add: onCycle_def)
  qed
  with no_result_iff_exhausted
         [of cyclicState "FromFileSetIds (Some [\<lparr>id' = Some ''A''\<rparr>])" "[]"]
  show ?thesis
    by (simp add: collectFilesFromFileSetIds_stack_def collectFilesFromFileSetIds_def)
qed

text \<open>
  Claim C5. With both timestamps present the label of the item that ends a build holds
  the elapsed time (\<open>label_1500\<close>: 1000 and 2500 give \<open>(1500ms)\<close>); with a timestamp
  missing the construction is not to fail and the label is to leave the time out. The
  constructor guards the subtraction only. With no \<open>started\<close> metadata, or with
  metadata that has no \<open>startTimeMillis\<close>, the conversion of the start timestamp
  raises a \<open>TypeError\<close> and no item is constructed.
\<close>

theorem BuildFinishedItem_new_missing_start:
  "BuildFinishedItem_new finishedPayload None = Inl TypeError \<and>
   BuildFinishedItem_new finishedPayload
     (Some \<lparr>uuid = Some ''u1'', startTimeMillis = None, buildToolVersion = Some ''3.7.0'',
            command = Some ''build'', workspaceDirectory = Some ''/ws''\<rparr>) = Inl TypeError"
  by (simp add: BuildFinishedItem_new_def Long_fromValue_def Long_fromNumber_def
      finishedPayload_def)



text \<open>
  A file whose \<open>uri\<close> is refused by \<open>Uri.parse\<close>: the constructor of its item
  raises the error, and the items built before it stay in \<open>outputs\<close>.
\<close>

lemma refused_uri_children:
  "TargetCompleteItem_getChildren exampleFileOf exampleParseUri
      (state (handleBazelBuildEvents BuildEventProtocolView_new
                [namedSetEvent ''A'' [1, 3], completedEvent ''A'']))
      (completedEvent ''A'') None
     = Some (Inl UriError, Some [FileItem (completedEvent ''A'') 1])"
  by (simp add: TargetCompleteItem_getChildren_def completedOf_def outputGroupsOf_def
      completedEvent_def completedPayload_def namedSetEvent_def namedSetKey_def
      handleBazelBuildEvent_def handleNamedSetOfFilesEvent_def handleCompletedEvent_def
      handleNamedSetOfFiles_def namedSetOfFilesOf_def addItem_def
      BuildEventProtocolView_new_def BuildEventState_new_def collect_simps Set_add_def
      FileItem_new_def exampleFileOf_def exampleParseUri_def truthy_def)

text \<open>
  Claim C7. A \<open>completed\<close> event whose file-set identifiers are all absent from the
  map of the tracker resolves to no file children, without an exception; resolving an
  absent identifier returns and leaves the files collected so far as they are.
\<close>

theorem unresolved_ids_no_children:
  assumes "completedOf e = Some c" and "failureDetail c = None"
    and "\<forall>g \<in> set (outputGroupsOf e). \<forall>ids. groupFileSets g = Some ids \<longrightarrow>
           (\<forall>i \<in> set ids. stateFileSets st (id' i) = None)"
  shows "TargetCompleteItem_getChildren fileOf parseUri st e None = Some (Inr [], Some []) \<and>
         (\<forall>i fs. stateFileSets st (id' i) = None \<longrightarrow>
            collectFilesFromFileSetId st (Some i) fs = Some fs)"
  using assms(1,2) unresolved_groups [OF assms(3), of "[]"]
  by (simp add: TargetCompleteItem_getChildren_def collect_simps)

theorem unresolved_ids_no_children_witness:
  "TargetCompleteItem_getChildren exampleFileOf exampleParseUri
     (BuildEventState_new :: nat BuildEventState)
     (completedEvent ''A'') None = Some (Inr [], Some []) \<and>
   collectFilesFromFileSetId (BuildEventState_new :: nat BuildEventState)
     (Some \<lparr>id' = Some ''A''\<rparr>) [7] = Some [7]"
proof -
  have c: "completedOf (completedEvent ''A'') = Some (completedPayload ''A'')"
    by (simp add: completedOf_def completedEvent_def)
  have d: "failureDetail (completedPayload ''A'') = None"
    by (simp add: completedPayload_def)
  have u: "\<forall>g \<in> set (outputGroupsOf (completedEvent ''A'')). \<forall>ids. groupFileSets g = Some ids \<longrightarrow>
           (\<forall>i \<in> set ids. stateFileSets (BuildEventState_new :: nat BuildEventState) (id' i) = None)"
    by (simp add: BuildEventState_new_def)
  from unresolved_ids_no_children [OF c d u, of exampleFileOf exampleParseUri]
  show ?thesis by (simp add: BuildEventState_new_def)
qed

text \<open>
  Claim C8. For a failed action the problems are to come from the matcher registered
  for the action's mnemonic, run on the content of stderr whenever stderr is present
  and on stdout only when stderr is absent; with no matcher registered the item has no
  children. The stream is chosen and the matcher is looked up in that way
  (\<open>actionProblems_stderr\<close>, \<open>actionProblems_stdout\<close>, \<open>no_matcher_leaf\<close>), and the
  matcher is run on a file that is given by its \<open>uri\<close> (\<open>uri_runs_matcher\<close>). For a
  file that carries its content inline the method for content returns nothing: with a
  matcher registered for \<open>CppCompile\<close> and a compiler error in the inline stderr, the
  failed action has no problems and its item becomes a leaf.
\<close>

theorem inline_stderr_yields_no_problems:
  "ActionFailedItem_getChildren (\<lambda>t. if t = Some ''CppCompile'' then Some m else None)
      readFile parseProblems failedActionEvent = Inr (None, CollapsibleNone)"
  by (simp add: ActionFailedItem_getChildren_def actionProblems_def fileProblems_def
      fileContentProblems_def failedActionEvent_def)

text \<open>
  Claim C9. Calling \<open>reset()\<close> twice in a row leaves the tracker in the same state as
  calling it once.
\<close>

theorem reset_idempotent: "reset (reset st) = reset st"
  by (simp add: reset_def)

text \<open>
  Claim C10. When two \<open>namedSetOfFiles\<close> events carry the same identifier, the map
  keeps the file set of the later event only, and resolving that identifier afterwards
  resolves the later file set.
\<close>

theorem namedSet_last_write_wins:
  assumes "namedSetKey e1 = namedSetKey e2" and "bes_payload e2 = namedSetOfFiles fileSet2"
  shows "stateFileSets (handleNamedSetOfFiles (handleNamedSetOfFiles st e1) e2) (namedSetKey e2)
           = Some fileSet2 \<and>
         handleNamedSetOfFiles (handleNamedSetOfFiles st e1) e2 = handleNamedSetOfFiles st e2 \<and>
         (\<forall>i fs. id' i = namedSetKey e2 \<longrightarrow>
            collectFilesFromFileSetId (handleNamedSetOfFiles (handleNamedSetOfFiles st e1) e2)
                (Some i) fs
              = collectFilesFromFileSet (handleNamedSetOfFiles (handleNamedSetOfFiles st e1) e2)
                  (Some fileSet2) fs)"
  using assms by (simp add: handleNamedSetOfFiles_def namedSetOfFilesOf_def collect_simps)

theorem namedSet_last_write_wins_witness:
  "stateFileSets
     (handleNamedSetOfFiles
        (handleNamedSetOfFiles BuildEventState_new (namedSetEvent ''A'' [1]))
        (namedSetEvent ''A'' [2, 3]))
     (Some ''A'') = Some \<lparr>files = Some [2, 3], fileSets = None\<rparr> \<and>
   collectFilesFromFileSetId
     (handleNamedSetOfFiles
        (handleNamedSetOfFiles BuildEventState_new (namedSetEvent ''A'' [1]))
        (namedSetEvent ''A'' [2, 3]))
     (Some \<lparr>id' = Some ''A''\<rparr>) [] = Some [2, 3]"
proof -
  have k: "namedSetKey (namedSetEvent ''A'' [1]) = namedSetKey (namedSetEvent ''A'' [2, 3])"
    by (simp add: namedSetKey_def namedSetEvent_def)
  have p: "bes_payload (namedSetEvent ''A'' [2, 3])
             = namedSetOfFiles \<lparr>files = Some [2, 3], fileSets = None\<rparr>"
    by (simp add: namedSetEvent_def)
  have n: "namedSetKey (namedSetEvent ''A'' [2, 3]) = Some ''A''"
    by (simp add: namedSetKey_def namedSetEvent_def)
  let ?st = "handleNamedSetOfFiles
        (handleNamedSetOfFiles (BuildEventState_new :: nat BuildEventState) (namedSetEvent ''A'' [1]))
        (namedSetEvent ''A'' [2, 3])"
  from namedSet_last_write_wins [OF k p, of BuildEventState_new]
  have a: "stateFileSets ?st (Some ''A'') = Some \<lparr>files = Some [2, 3], fileSets = None\<rparr>"
    and b: "\<forall>i fs. id' i = Some ''A'' \<longrightarrow>
              collectFilesFromFileSetId ?st (Some i) fs
                = collectFilesFromFileSet ?st (Some \<lparr>files = Some [2, 3], fileSets = None\<rparr>) fs"
    unfolding n by blast+
  from b have "collectFilesFromFileSetId ?st (Some \<lparr>id' = Some ''A''\<rparr>) []
      = collectFilesFromFileSet ?st (Some \<lparr>files = Some [2, 3], fileSets = None\<rparr>) []"
    by simp
  also have "\<dots> = Some [2, 3]"
    by (simp add: collectFilesFromFileSet_simps collectFilesFromFileSetIds_simps Set_add_def)
  finally show ?thesis using a by simp
qed

end
